theory Spec2Isabelle
  imports Complex_Main "HOL-Library.Word" "HOL-Library.Log_Nat"
begin

section \<open>JavaScript values and objects\<close>

text \<open>
  Commands are plain objects (\<^verbatim>\<open>Record<string, any>\<close>). An object is an association list
  in property order with unique keys; a property value is one of the JavaScript primitives
  the command path uses.
\<close>

datatype jsval = JUndefined | JNull | JBool bool | JNum int | JStr string

type_synonym obj = "(string \<times> jsval) list"

definition getProp :: "obj \<Rightarrow> string \<Rightarrow> jsval" where
  \<comment> \<open>\<^verbatim>\<open>o[k]\<close>: a missing property reads as \<^verbatim>\<open>undefined\<close>.\<close>
  "getProp ob k = (case map_of ob k of None \<Rightarrow> JUndefined | Some v \<Rightarrow> v)"

fun setProp :: "string \<Rightarrow> jsval \<Rightarrow> obj \<Rightarrow> obj" where
  \<comment> \<open>Writing a property: an existing key keeps its position, a new key goes last.\<close>
  "setProp k v [] = [(k, v)]"
| "setProp k v ((k', v') # ps) = (if k' = k then (k, v) # ps else (k', v') # setProp k v ps)"

definition hasProp :: "obj \<Rightarrow> string \<Rightarrow> bool" where
  "hasProp ob k = (map_of ob k \<noteq> None)"

section \<open>JavaScript numbers\<close>

text \<open>
  A number is an IEEE 754 double. A finite double is kept as the rational it denotes; the
  result of an arithmetic operation is the exact result rounded to the nearest double, ties
  to even (\<open>fl64\<close>, with 53 significant bits and gradual underflow). Results too large for
  a finite double are not modelled. Whole numbers below \<open>2^53\<close> (counters, millisecond
  clock readings) are doubles, and sums and differences of them that stay below \<open>2^53\<close>
  are exact, so they are kept as \<open>int\<close>.
\<close>

definition roundEven :: "rat \<Rightarrow> int" where
  \<comment> \<open>The nearest integer, the even one of two equally near.\<close>
  "roundEven x =
     (let f = \<lfloor>x\<rfloor>; d = x - of_int f
      in if d < 1 / 2 then f else if d > 1 / 2 then f + 1 else if even f then f else f + 1)"

definition pow2 :: "int \<Rightarrow> rat" where
  "pow2 e = (if e \<ge> 0 then 2 ^ nat e else 1 / 2 ^ nat (- e))"

definition binade :: "rat \<Rightarrow> int" where
  \<comment> \<open>For \<open>x \<noteq> 0\<close>, the \<open>e\<close> with \<open>2^e \<le> |x| < 2^(e+1)\<close>.\<close>
  "binade x =
     (case quotient_of \<bar>x\<bar> of (p, q) \<Rightarrow>
        (let d = bitlen p - bitlen q in if pow2 d \<le> \<bar>x\<bar> then d else d - 1))"

definition fl64 :: "rat \<Rightarrow> rat" where
  "fl64 x =
     (if x = 0 then 0
      else (let e = max (binade x - 52) (- 1074)
            in of_int (roundEven (x / pow2 e)) * pow2 e))"

section \<open>Command queue (services/security.ts, CommandQueue)\<close>

datatype priority = Critical | High | Normal | Low

datatype qstatus = Queued | Executing | Completed | Failed

text \<open>
  \<^verbatim>\<open>QueuedCommand\<close>. The field \<open>oid\<close> is the identity of the JavaScript object: objects are
  compared by reference, and each \<^verbatim>\<open>enqueue\<close> call creates a fresh one, so \<open>oid\<close> is the number
  of the call that created it. \<open>ident\<close> is the \<^verbatim>\<open>id\<close> string \<^verbatim>\<open>cmd_${Date.now()}_${random}\<close>, kept
  as the pair of its two variable parts. A callback is a handle into the caller's closures.
\<close>

record queued_command =
  oid :: nat
  ident :: "int \<times> string"
  command :: obj
  priority :: priority
  addedAt :: int
  attempts :: int
  maxRetries :: int
  status :: qstatus
  onComplete :: "nat option"
  onError :: "nat option"

datatype send_result = Delivered | Rejected | Raised string

text \<open>
  The queue object. \<open>errorCalls\<close> is the trace of the \<^verbatim>\<open>onError\<close> invocations made so far
  (callback handle and argument), \<open>allocated\<close> the number of items created so far. The rate
  limiter only delays \<^verbatim>\<open>flush\<close> and is left out.
\<close>

record command_queue =
  queue :: "queued_command list"
  maxSize :: nat
  processing :: bool
  bridgeSender :: "(obj \<Rightarrow> send_result) option"
  errorCalls :: "(nat \<times> string) list"
  allocated :: nat

definition newCommandQueue :: command_queue where
  "newCommandQueue =
     \<lparr>queue = [], maxSize = 100, processing = False, bridgeSender = None,
      errorCalls = [], allocated = 0\<rparr>"

definition priorityOrder :: "priority \<Rightarrow> nat" where
  "priorityOrder p = (case p of Critical \<Rightarrow> 0 | High \<Rightarrow> 1 | Normal \<Rightarrow> 2 | Low \<Rightarrow> 3)"

fun findIndexFrom :: "nat \<Rightarrow> ('a \<Rightarrow> bool) \<Rightarrow> 'a list \<Rightarrow> nat option" where
  "findIndexFrom i P [] = None"
| "findIndexFrom i P (x # xs) = (if P x then Some i else findIndexFrom (Suc i) P xs)"

definition findIndex :: "('a \<Rightarrow> bool) \<Rightarrow> 'a list \<Rightarrow> nat option" where
  \<comment> \<open>\<^verbatim>\<open>Array.prototype.findIndex\<close>; \<open>None\<close> is the result \<^verbatim>\<open>-1\<close>.\<close>
  "findIndex P xs = findIndexFrom 0 P xs"

definition insertByPriority :: "queued_command \<Rightarrow> queued_command list \<Rightarrow> queued_command list" where
  \<comment> \<open>Lines 506-516: \<^verbatim>\<open>push\<close> when no queued item has a larger order, \<^verbatim>\<open>splice\<close> otherwise.\<close>
  "insertByPriority item q =
     (case findIndex (\<lambda>x. priorityOrder (priority x) > priorityOrder (priority item)) q of
        None \<Rightarrow> q @ [item]
      | Some i \<Rightarrow> take i q @ item # drop i q)"

definition overflowNotice :: string where
  "overflowNotice = ''Queue overflow: command dropped''"

definition enqueue ::
  "obj \<Rightarrow> priority \<Rightarrow> int \<Rightarrow> nat option \<Rightarrow> nat option \<Rightarrow> int \<Rightarrow> string \<Rightarrow> command_queue
    \<Rightarrow> queued_command \<times> command_queue" where
  \<comment> \<open>\<open>now\<close> is \<^verbatim>\<open>Date.now()\<close>, \<open>rnd\<close> the random suffix of the id. The source's defaults are
      \<^verbatim>\<open>priority = 'normal'\<close> and \<^verbatim>\<open>maxRetries = 3\<close>.\<close>
  "enqueue cmd prio retries onC onE now rnd s =
     (let item = \<lparr>oid = allocated s, ident = (now, rnd), command = cmd, priority = prio,
                  addedAt = now, attempts = 0, maxRetries = retries, status = Queued,
                  onComplete = onC, onError = onE\<rparr>;
          q1 = insertByPriority item (queue s);
          s1 = s\<lparr>queue := q1, allocated := Suc (allocated s)\<rparr>
      in if length q1 > maxSize s
         then (let removed = last q1;
                   s2 = s1\<lparr>queue := butlast q1\<rparr>
               in (item, case onError removed of
                           None \<Rightarrow> s2
                         | Some h \<Rightarrow> s2\<lparr>errorCalls := errorCalls s2 @ [(h, overflowNotice)]\<rparr>))
         else (item, s1))"

text \<open>
  \<^verbatim>\<open>flush\<close>. The loop visits the items whose status is \<^verbatim>\<open>queued\<close> in queue order and mutates
  them in place; the result carries the queue with the mutated items, the two counters, the
  \<^verbatim>\<open>onError\<close> calls made and the items in the order they were handed to the sender.
\<close>

fun flushLoop ::
  "(obj \<Rightarrow> send_result) \<Rightarrow> queued_command list
    \<Rightarrow> queued_command list \<times> nat \<times> nat \<times> (nat \<times> string) list \<times> queued_command list" where
  "flushLoop sender [] = ([], 0, 0, [], [])"
| "flushLoop sender (q # qs) =
     (if status q \<noteq> Queued
      then (case flushLoop sender qs of (qs', sent, failed, calls, tried) \<Rightarrow>
              (q # qs', sent, failed, calls, tried))
      else (let item = q\<lparr>status := Executing, attempts := attempts q + 1\<rparr>;
                outcome = sender (command item);
                (item', dsent, dfailed, dcalls) =
                  (case outcome of
                     Delivered \<Rightarrow> (item\<lparr>status := Completed\<rparr>, 1, 0, [])
                   | _ \<Rightarrow>
                     (if attempts item \<ge> maxRetries item
                      then (item\<lparr>status := Failed\<rparr>, 0, 1,
                            (case onError item of
                               None \<Rightarrow> []
                             | Some h \<Rightarrow>
                                 [(h, case outcome of Raised m \<Rightarrow> m | _ \<Rightarrow> ''Send failed'')]))
                      else (item\<lparr>status := Queued\<rparr>, 0, 1, [])))
            in (case flushLoop sender qs of (qs', sent, failed, calls, tried) \<Rightarrow>
                  (item' # qs', dsent + sent, dfailed + failed, dcalls @ calls, item # tried))))"

definition flush :: "command_queue \<Rightarrow> (nat \<times> nat) \<times> command_queue \<times> queued_command list" where
  "flush s =
     (case bridgeSender s of
        None \<Rightarrow> ((0, 0), s, [])
      | Some sender \<Rightarrow>
          if processing s then ((0, 0), s, [])
          else (case flushLoop sender (queue s) of (q', sent, failed, calls, tried) \<Rightarrow>
                  ((sent, failed),
                   s\<lparr>queue := filter (\<lambda>q. status q = Queued) q', processing := False,
                     errorCalls := errorCalls s @ calls\<rparr>,
                   tried)))"

record queue_status =
  qsize :: nat
  pending :: nat
  executing :: nat
  byPriority :: "priority \<Rightarrow> nat"

definition getStatus :: "command_queue \<Rightarrow> queue_status" where
  "getStatus s =
     \<lparr>qsize = length (queue s),
      pending = length (filter (\<lambda>q. status q = Queued) (queue s)),
      executing = length (filter (\<lambda>q. status q = Executing) (queue s)),
      byPriority = foldl (\<lambda>bp q. bp(priority q := bp (priority q) + 1)) (\<lambda>_. 0)
                     (filter (\<lambda>q. status q = Queued) (queue s))\<rparr>"

text \<open>A sequence of \<^verbatim>\<open>enqueue\<close> calls on a new queue, each call with its own arguments.\<close>

record enqueue_call =
  c_command :: obj
  c_priority :: priority
  c_maxRetries :: int
  c_onComplete :: "nat option"
  c_onError :: "nat option"
  c_now :: int
  c_rnd :: string

definition enqueueCall :: "enqueue_call \<Rightarrow> command_queue \<Rightarrow> command_queue" where
  "enqueueCall c s =
     snd (enqueue (c_command c) (c_priority c) (c_maxRetries c) (c_onComplete c) (c_onError c)
            (c_now c) (c_rnd c) s)"

definition enqueueAll :: "enqueue_call list \<Rightarrow> command_queue" where
  "enqueueAll cs = foldl (\<lambda>s c. enqueueCall c s) newCommandQueue cs"

definition servedBefore :: "queued_command \<Rightarrow> queued_command \<Rightarrow> bool" where
  \<comment> \<open>Higher tier first; within a tier, the item created earlier first.\<close>
  "servedBefore a b =
     (priorityOrder (priority a) < priorityOrder (priority b)
      \<or> (priority a = priority b \<and> oid a < oid b))"

section \<open>Bridge authentication and command validation (services/security.ts)\<close>

datatype js_error = Error string | TypeError string

record bridge_authenticator =
  token :: string

definition truthyStr :: "string option \<Rightarrow> bool" where
  \<comment> \<open>A \<^verbatim>\<open>string | undefined\<close> is truthy when it is a non-empty string.\<close>
  "truthyStr x = (case x of None \<Rightarrow> False | Some t \<Rightarrow> t \<noteq> [])"

definition newBridgeAuthenticator ::
  "string option \<Rightarrow> string option \<Rightarrow> js_error + bridge_authenticator" where
  \<comment> \<open>The constructor; \<open>envToken\<close> is \<^verbatim>\<open>VITE_JERRY_BRIDGE_TOKEN\<close>.\<close>
  "newBridgeAuthenticator tok envToken =
     (if \<not> truthyStr tok \<and> \<not> truthyStr envToken
      then Inl (Error ''CRITICAL: VITE_JERRY_BRIDGE_TOKEN must be set in .env.local'')
      else Inr \<lparr>token = (if truthyStr tok then the tok else the envToken)\<rparr>)"

definition hexDigit :: "nat \<Rightarrow> char" where
  "hexDigit n = ''0123456789abcdef'' ! n"

definition hexByte :: "8 word \<Rightarrow> string" where
  \<comment> \<open>\<^verbatim>\<open>b.toString(16).padStart(2, '0')\<close>\<close>
  "hexByte b = [hexDigit (unat b div 16), hexDigit (unat b mod 16)]"

definition generateNonce :: "(nat \<Rightarrow> 8 word) \<Rightarrow> string" where
  \<comment> \<open>\<open>rng i\<close> is the random byte stored at index \<open>i\<close> of the 16-byte array, by
      \<^verbatim>\<open>crypto.getRandomValues\<close> or by the \<^verbatim>\<open>Math.random\<close> fallback.\<close>
  "generateNonce rng = concat (map (\<lambda>i. hexByte (rng i)) [0..<16])"

definition wrapCommand :: "bridge_authenticator \<Rightarrow> int \<Rightarrow> (nat \<Rightarrow> 8 word) \<Rightarrow> obj \<Rightarrow> obj" where
  \<comment> \<open>\<^verbatim>\<open>{ ...command, auth_token, timestamp, nonce }\<close>; \<open>now\<close> is \<^verbatim>\<open>Date.now()\<close>.\<close>
  "wrapCommand auth now rng cmd =
     setProp ''nonce'' (JStr (generateNonce rng))
       (setProp ''timestamp'' (JNum now)
         (setProp ''auth_token'' (JStr (token auth)) cmd))"

definition authFields :: "string list" where
  "authFields = [''auth_token'', ''timestamp'', ''nonce'']"

definition DANGEROUS_ACTIONS :: "string list" where
  "DANGEROUS_ACTIONS =
     [''shutdown'', ''restart'', ''delete_file'', ''delete_folder'',
      ''format'', ''kill_process'', ''shell_execute'', ''logoff'']"

definition BLOCKED_PATTERNS :: "string list" where
  "BLOCKED_PATTERNS =
     [''format c:'', ''rm -rf /'', ''del /s /q c:'', ''rd /s /q c:'',
      ''reg delete hklm'', ''reg delete hkcu'']"

text \<open>
  A string is kept as its UTF-8 bytes. \<^verbatim>\<open>String.prototype.toLowerCase\<close> follows the Unicode
  case mappings; it is not code of this repository and enters as the parameter \<open>lc\<close>.
  On text made of ASCII characters only it is \<open>asciiLowerCase\<close>.
\<close>

definition asciiLowerChar :: "char \<Rightarrow> char" where
  "asciiLowerChar c =
     (case map_of (zip ''ABCDEFGHIJKLMNOPQRSTUVWXYZ'' ''abcdefghijklmnopqrstuvwxyz'') c of
        None \<Rightarrow> c | Some l \<Rightarrow> l)"

definition asciiLowerCase :: "string \<Rightarrow> string" where
  "asciiLowerCase s = map asciiLowerChar s"

definition isAscii :: "string \<Rightarrow> bool" where
  "isAscii s = list_all (\<lambda>c. (of_char c :: nat) < 128) s"

definition lowersAscii :: "(string \<Rightarrow> string) \<Rightarrow> bool" where
  \<comment> \<open>What is used of \<^verbatim>\<open>toLowerCase\<close>: its values on ASCII text.\<close>
  "lowersAscii lc = (\<forall>s. isAscii s \<longrightarrow> lc s = asciiLowerCase s)"

fun startsWith :: "string \<Rightarrow> string \<Rightarrow> bool" where
  "startsWith s [] = True"
| "startsWith [] (p # ps) = False"
| "startsWith (c # cs) (p # ps) = (c = p \<and> startsWith cs ps)"

fun includesStr :: "string \<Rightarrow> string \<Rightarrow> bool" where
  \<comment> \<open>\<^verbatim>\<open>s.includes(p)\<close>: \<open>p\<close> occurs in \<open>s\<close> as a contiguous substring.\<close>
  "includesStr [] p = (p = [])"
| "includesStr (c # cs) p = (startsWith (c # cs) p \<or> includesStr cs p)"

definition lowerOrEmpty :: "(string \<Rightarrow> string) \<Rightarrow> jsval \<Rightarrow> js_error + string" where
  \<comment> \<open>\<^verbatim>\<open>(x || '').toLowerCase()\<close>: a falsy value reads as the empty string, a truthy value
      that is not a string has no \<^verbatim>\<open>toLowerCase\<close> method.\<close>
  "lowerOrEmpty lc x =
     (case x of
        JStr s \<Rightarrow> Inr (lc s)
      | JUndefined \<Rightarrow> Inr (lc [])
      | JNull \<Rightarrow> Inr (lc [])
      | JBool b \<Rightarrow> (if b then Inl (TypeError ''toLowerCase is not a function'') else Inr (lc []))
      | JNum n \<Rightarrow> (if n = 0 then Inr (lc []) else Inl (TypeError ''toLowerCase is not a function'')))"

record validation =
  valid :: bool
  message :: string
  dangerous :: bool

definition combinedText :: "string \<Rightarrow> string \<Rightarrow> string \<Rightarrow> string" where
  \<comment> \<open>The template \<^verbatim>\<open>`${action} ${target} ${payload}`\<close>\<close>
  "combinedText action target payload = action @ '' '' @ target @ '' '' @ payload"

definition validateStrings :: "string \<Rightarrow> string \<Rightarrow> string \<Rightarrow> validation" where
  \<comment> \<open>The body of \<^verbatim>\<open>validate\<close> after the three fields have been read and lowered.\<close>
  "validateStrings action target payload =
     (case find (\<lambda>blocked. includesStr (combinedText action target payload) blocked) BLOCKED_PATTERNS of
        Some blocked \<Rightarrow>
          \<lparr>valid = False,
           message = ''BLOCKED: '' @ [CHR 0x27] @ blocked @ [CHR 0x27] @ '' is a prohibited operation.'',
           dangerous = True\<rparr>
      | None \<Rightarrow>
          if action = [] then \<lparr>valid = False, message = ''Missing action field.'', dangerous = False\<rparr>
          else \<lparr>valid = True, message = ''OK'', dangerous = (action \<in> set DANGEROUS_ACTIONS)\<rparr>)"

definition validate :: "(string \<Rightarrow> string) \<Rightarrow> obj \<Rightarrow> js_error + validation" where
  "validate lc cmd =
     (case lowerOrEmpty lc (getProp cmd ''action'') of
        Inl e \<Rightarrow> Inl e
      | Inr action \<Rightarrow>
          (case lowerOrEmpty lc (getProp cmd ''target'') of
             Inl e \<Rightarrow> Inl e
           | Inr target \<Rightarrow>
               (case lowerOrEmpty lc (getProp cmd ''payload'') of
                  Inl e \<Rightarrow> Inl e
                | Inr payload \<Rightarrow> Inr (validateStrings action target payload))))"

definition textField :: "obj \<Rightarrow> string \<Rightarrow> bool" where
  \<comment> \<open>The property is absent or holds a string, as the \<^verbatim>\<open>BridgeCommand\<close> type declares.\<close>
  "textField cmd k = (case getProp cmd k of JStr s \<Rightarrow> True | JUndefined \<Rightarrow> True | _ \<Rightarrow> False)"

definition textOf :: "obj \<Rightarrow> string \<Rightarrow> string" where
  "textOf cmd k = (case getProp cmd k of JStr s \<Rightarrow> s | _ \<Rightarrow> [])"

section \<open>System monitor alerts (services/security.ts, SystemMonitorService)\<close>

datatype metric = Cpu | Memory | Disk | Battery

datatype direction = Above | Below

record alert_rule =
  rule_id :: string
  rule_metric :: metric
  threshold :: real
  rule_direction :: direction
  rule_message :: string
  cooldownMs :: int
  lastTriggered :: int
  rule_enabled :: bool

text \<open>
  \<^verbatim>\<open>SystemSnapshot\<close>, with the four readings the alert rules look at; the other fields of a
  snapshot are stored with it and never read by \<^verbatim>\<open>checkAlerts\<close>.
\<close>

record system_snapshot =
  cpu_percent :: real
  memory_percent :: real
  disk_percent :: real
  battery_percent :: "real option"

datatype cached = CachedSnapshot "system_snapshot option" | CachedReport string

text \<open>
  The service. \<open>alertCallback\<close> is the handle of the registered callback, \<open>alertCalls\<close> the
  trace of its invocations: the position of the rule in \<open>alertRules\<close> (the rule object), the
  rule as passed, and the value.
\<close>

record system_monitor =
  history :: "system_snapshot list"
  maxHistory :: nat
  alertRules :: "alert_rule list"
  alertCallback :: "nat option"
  lastSnapshot :: "system_snapshot option"
  cache :: "(string \<times> cached \<times> int) list"
  alertCalls :: "(nat \<times> alert_rule \<times> real) list"

definition defaultAlerts :: "alert_rule list" where
  "defaultAlerts =
     [\<lparr>rule_id = ''cpu_high'', rule_metric = Cpu, threshold = 90, rule_direction = Above,
       rule_message = ''CPU usage critical: {value}%'', cooldownMs = 60000,
       lastTriggered = 0, rule_enabled = True\<rparr>,
      \<lparr>rule_id = ''memory_high'', rule_metric = Memory, threshold = 85, rule_direction = Above,
       rule_message = ''Memory usage high: {value}%'', cooldownMs = 60000,
       lastTriggered = 0, rule_enabled = True\<rparr>,
      \<lparr>rule_id = ''disk_high'', rule_metric = Disk, threshold = 90, rule_direction = Above,
       rule_message = ''Disk usage critical: {value}%'', cooldownMs = 300000,
       lastTriggered = 0, rule_enabled = True\<rparr>,
      \<lparr>rule_id = ''battery_low'', rule_metric = Battery, threshold = 15, rule_direction = Below,
       rule_message = ''Battery critically low: {value}%'', cooldownMs = 120000,
       lastTriggered = 0, rule_enabled = True\<rparr>]"

definition newSystemMonitor :: system_monitor where
  "newSystemMonitor =
     \<lparr>history = [], maxHistory = 120, alertRules = defaultAlerts, alertCallback = None,
      lastSnapshot = None, cache = [], alertCalls = []\<rparr>"

definition onAlert :: "nat \<Rightarrow> system_monitor \<Rightarrow> system_monitor" where
  "onAlert cb s = s\<lparr>alertCallback := Some cb\<rparr>"

definition metricValue :: "metric \<Rightarrow> system_snapshot \<Rightarrow> real option" where
  "metricValue m snap =
     (case m of
        Cpu \<Rightarrow> Some (cpu_percent snap)
      | Memory \<Rightarrow> Some (memory_percent snap)
      | Disk \<Rightarrow> Some (disk_percent snap)
      | Battery \<Rightarrow> battery_percent snap)"

definition passes :: "alert_rule \<Rightarrow> real \<Rightarrow> bool" where
  \<comment> \<open>\<^verbatim>\<open>triggered\<close>\<close>
  "passes rule v =
     (if rule_direction rule = Above then v > threshold rule else v < threshold rule)"

fun checkRulesFrom ::
  "nat \<Rightarrow> int \<Rightarrow> system_snapshot \<Rightarrow> alert_rule list
    \<Rightarrow> alert_rule list \<times> (nat \<times> alert_rule \<times> real) list" where
  \<comment> \<open>The loop of \<^verbatim>\<open>checkAlerts\<close> from position \<open>i\<close> on: the rules as mutated, and the calls.\<close>
  "checkRulesFrom i now snap [] = ([], [])"
| "checkRulesFrom i now snap (rule # rules) =
     (case checkRulesFrom (Suc i) now snap rules of (rules', calls) \<Rightarrow>
        if \<not> rule_enabled rule then (rule # rules', calls)
        else if now - lastTriggered rule < cooldownMs rule then (rule # rules', calls)
        else (case metricValue (rule_metric rule) snap of
                None \<Rightarrow> (rule # rules', calls)
              | Some v \<Rightarrow>
                  if passes rule v
                  then (rule\<lparr>lastTriggered := now\<rparr> # rules',
                        (i, rule\<lparr>lastTriggered := now\<rparr>, v) # calls)
                  else (rule # rules', calls)))"

definition checkAlerts :: "int \<Rightarrow> system_snapshot \<Rightarrow> system_monitor \<Rightarrow> system_monitor" where
  "checkAlerts now snap s =
     (case alertCallback s of
        None \<Rightarrow> s
      | Some cb \<Rightarrow>
          (case checkRulesFrom 0 now snap (alertRules s) of (rules', calls) \<Rightarrow>
             s\<lparr>alertRules := rules', alertCalls := alertCalls s @ calls\<rparr>))"

definition processSnapshot :: "int \<Rightarrow> system_snapshot \<Rightarrow> system_monitor \<Rightarrow> system_monitor" where
  \<comment> \<open>\<open>now\<close> is the \<^verbatim>\<open>Date.now()\<close> read by \<^verbatim>\<open>checkAlerts\<close>.\<close>
  "processSnapshot now snap s =
     checkAlerts now snap
       (s\<lparr>lastSnapshot := Some snap,
          history := (let h = history s @ [snap] in if length h > maxHistory s then tl h else h),
          cache := []\<rparr>)"

definition callsFor :: "nat \<Rightarrow> (nat \<times> alert_rule \<times> real) list \<Rightarrow> (alert_rule \<times> real) list" where
  \<comment> \<open>The invocations of the callback made for the rule at position \<open>i\<close>.\<close>
  "callsFor i calls = map snd (filter (\<lambda>c. fst c = i) calls)"

definition cpuSnapshot :: "real \<Rightarrow> system_snapshot" where
  "cpuSnapshot c =
     \<lparr>cpu_percent = c, memory_percent = 40, disk_percent = 50, battery_percent = Some 80\<rparr>"

section \<open>Credential rotation (NeuralKeyManager)\<close>

record key_health =
  key :: string
  failureCount :: int
  lastFailure :: "int option"
  cooldownUntil :: int
  successCount :: int

record key_manager =
  keys :: "key_health list"
  currentIndex :: nat

definition COOLDOWN_MS :: int where
  "COOLDOWN_MS = 60000"

definition MAX_FAILURES_BEFORE_LONG_COOLDOWN :: int where
  "MAX_FAILURES_BEFORE_LONG_COOLDOWN = 3"

definition LONG_COOLDOWN_MS :: int where
  "LONG_COOLDOWN_MS = 300000"

definition markFailed :: "int \<Rightarrow> int \<Rightarrow> key_manager \<Rightarrow> js_error + key_manager" where
  \<comment> \<open>\<open>t1\<close> and \<open>t2\<close> are the two \<^verbatim>\<open>Date.now()\<close> readings. Reading a field of
      \<^verbatim>\<open>keys[currentIndex]\<close> outside the array is a TypeError.\<close>
  "markFailed t1 t2 s =
     (if keys s = [] then Inr s
      else if currentIndex s < length (keys s)
      then (let k = keys s ! currentIndex s;
                k1 = k\<lparr>failureCount := failureCount k + 1, lastFailure := Some t1\<rparr>;
                cooldown = (if failureCount k1 \<ge> MAX_FAILURES_BEFORE_LONG_COOLDOWN
                            then LONG_COOLDOWN_MS else COOLDOWN_MS)
            in Inr (s\<lparr>keys := (keys s)[currentIndex s := k1\<lparr>cooldownUntil := t2 + cooldown\<rparr>]\<rparr>))
      else Inl (TypeError ''key is undefined''))"

definition markSuccess :: "key_manager \<Rightarrow> js_error + key_manager" where
  "markSuccess s =
     (if keys s = [] then Inr s
      else if currentIndex s < length (keys s)
      then (let k = keys s ! currentIndex s;
                k1 = k\<lparr>successCount := successCount k + 1\<rparr>;
                k2 = (if failureCount k1 > 0
                      then k1\<lparr>failureCount := max 0 (failureCount k1 - 1)\<rparr> else k1)
            in Inr (s\<lparr>keys := (keys s)[currentIndex s := k2\<lparr>cooldownUntil := 0\<rparr>]\<rparr>))
      else Inl (TypeError ''key is undefined''))"

fun markFailedTimes :: "(int \<times> int) list \<Rightarrow> key_manager \<Rightarrow> js_error + key_manager" where
  \<comment> \<open>Consecutive \<^verbatim>\<open>markFailed()\<close> calls, one per pair of clock readings.\<close>
  "markFailedTimes [] s = Inr s"
| "markFailedTimes ((t1, t2) # ts) s =
     (case markFailed t1 t2 s of Inl e \<Rightarrow> Inl e | Inr s' \<Rightarrow> markFailedTimes ts s')"

definition score :: "int \<Rightarrow> key_health \<Rightarrow> rat" where
  \<comment> \<open>The health score of one candidate, as the doubles the statements compute.\<close>
  "score now k =
     (let inCooldown = cooldownUntil k > now;
          s0 = (if inCooldown then 0 else 1000);
          s1 = fl64 (s0 - fl64 (of_int (failureCount k) * 100));
          s2 = fl64 (s1 + of_int (successCount k))
      in if inCooldown
         then (let cooldownRemaining = fl64 (of_int (cooldownUntil k) - of_int now)
               in fl64 (s2 - fl64 (cooldownRemaining / 1000)))
         else s2)"

definition scoreStep ::
  "int \<Rightarrow> nat \<Rightarrow> key_health list \<Rightarrow> nat option \<times> rat option \<Rightarrow> nat \<Rightarrow> nat option \<times> rat option" where
  \<comment> \<open>One round of the first loop. \<open>bestIndex = None\<close> is \<^verbatim>\<open>-1\<close>, \<open>bestScore = None\<close> is
      \<^verbatim>\<open>-Infinity\<close>.\<close>
  "scoreStep now cur ks best i =
     (if i = cur then best
      else (let sc = score now (ks ! i)
            in if (case snd best of None \<Rightarrow> True | Some b \<Rightarrow> sc > b)
               then (Some i, Some sc) else best))"

definition scoreLoop :: "int \<Rightarrow> nat \<Rightarrow> key_health list \<Rightarrow> nat option" where
  "scoreLoop now cur ks = fst (foldl (scoreStep now cur ks) (None, None) [0..<length ks])"

definition shortestStep ::
  "int \<Rightarrow> nat \<Rightarrow> key_health list \<Rightarrow> nat option \<times> int option \<Rightarrow> nat \<Rightarrow> nat option \<times> int option" where
  \<comment> \<open>One round of the second loop; \<open>shortestCooldown = None\<close> is \<^verbatim>\<open>Infinity\<close>.\<close>
  "shortestStep now cur ks best i =
     (if i = cur then best
      else (let remaining = cooldownUntil (ks ! i) - now
            in if (case snd best of None \<Rightarrow> True | Some b \<Rightarrow> remaining < b)
               then (Some i, Some remaining) else best))"

definition shortestLoop :: "int \<Rightarrow> nat \<Rightarrow> key_health list \<Rightarrow> nat option" where
  "shortestLoop now cur ks = fst (foldl (shortestStep now cur ks) (None, None) [0..<length ks])"

definition rotate :: "int \<Rightarrow> int \<Rightarrow> int \<Rightarrow> key_manager \<Rightarrow> js_error + (bool \<times> key_manager)" where
  \<comment> \<open>\<open>now\<close> is read before \<^verbatim>\<open>markFailed()\<close> runs; \<open>t1\<close>, \<open>t2\<close> are its own readings.\<close>
  "rotate now t1 t2 s =
     (if length (keys s) \<le> 1 then Inr (False, s)
      else (case markFailed t1 t2 s of
              Inl e \<Rightarrow> Inl e
            | Inr s1 \<Rightarrow>
                (let best1 = scoreLoop now (currentIndex s1) (keys s1);
                     best2 = (case best1 of
                                None \<Rightarrow> shortestLoop now (currentIndex s1) (keys s1)
                              | Some i \<Rightarrow> Some i);
                     best3 = (case best2 of
                                None \<Rightarrow> (currentIndex s1 + 1) mod length (keys s1)
                              | Some i \<Rightarrow> i)
                 in Inr (True, s1\<lparr>currentIndex := best3\<rparr>))))"

text \<open>
  The selection as the specification words it: among the other credentials the first one, in
  pool order, whose score no other candidate exceeds; failing that the first one with the
  shortest remaining cooldown; failing that the next index round-robin.
\<close>

definition others :: "nat \<Rightarrow> key_health list \<Rightarrow> nat list" where
  "others cur ks = filter (\<lambda>i. i \<noteq> cur) [0..<length ks]"

definition highestScore :: "int \<Rightarrow> nat \<Rightarrow> key_health list \<Rightarrow> nat option" where
  "highestScore now cur ks =
     find (\<lambda>i. list_all (\<lambda>j. score now (ks ! j) \<le> score now (ks ! i)) (others cur ks))
       (others cur ks)"

definition shortestCooldown :: "int \<Rightarrow> nat \<Rightarrow> key_health list \<Rightarrow> nat option" where
  "shortestCooldown now cur ks =
     find (\<lambda>i. list_all (\<lambda>j. cooldownUntil (ks ! i) - now \<le> cooldownUntil (ks ! j) - now)
                 (others cur ks))
       (others cur ks)"

definition rotateSpec :: "int \<Rightarrow> int \<Rightarrow> int \<Rightarrow> key_manager \<Rightarrow> js_error + (bool \<times> key_manager)" where
  "rotateSpec now t1 t2 s =
     (if length (keys s) \<le> 1 then Inr (False, s)
      else (case markFailed t1 t2 s of
              Inl e \<Rightarrow> Inl e
            | Inr s1 \<Rightarrow>
                Inr (True,
                     s1\<lparr>currentIndex :=
                          (case highestScore now (currentIndex s1) (keys s1) of
                             Some i \<Rightarrow> i
                           | None \<Rightarrow>
                               (case shortestCooldown now (currentIndex s1) (keys s1) of
                                  Some i \<Rightarrow> i
                                | None \<Rightarrow> (currentIndex s1 + 1) mod length (keys s1)))\<rparr>)))"

section \<open>Workflow engine (services/workflowEngine.ts, WorkflowEngine)\<close>

datatype cond_type = BridgeActive | TimeAfter | TimeBefore | Always

record step_condition =
  cond_type :: cond_type
  cond_value :: "string option"

datatype failure_policy = Skip | Abort | Retry

record workflow_step =
  step_id :: string
  action :: string
  target :: "string option"
  payload :: "string option"
  extra :: "string option"
  delayMs :: "int option"
  condition :: "step_condition option"
  onFailure :: "failure_policy option"
  retries :: "int option"

datatype trigger = Manual | Voice | Schedule | Event

datatype schedule_type = Once | Daily | Interval

record schedule =
  sched_type :: schedule_type
  sched_time :: "string option"
  intervalMs :: "int option"
  nextRun :: "int option"

text \<open>A time stamp string (\<^verbatim>\<open>toISOString()\<close>) is kept as the instant it denotes.\<close>

record workflow =
  wf_id :: string
  wf_name :: string
  description :: string
  steps :: "workflow_step list"
  trigger :: trigger
  schedule :: "schedule option"
  wf_enabled :: bool
  lastRun :: "int option"
  runCount :: int

datatype step_status = StepSuccess | StepFailed | StepSkipped

datatype run_status = RunCompleted | RunPartial | RunFailed

record step_result =
  stepId :: string
  sr_action :: string
  sr_status :: step_status
  sr_result :: string
  duration :: int

record workflow_result =
  workflowId :: string
  workflowName :: string
  startedAt :: int
  completedAt :: int
  res_steps :: "step_result list"
  res_status :: run_status

text \<open>
  The executor is the caller's asynchronous function: it takes the command and the state
  \<open>'w\<close> of the world outside the engine. It resolves with \<^verbatim>\<open>null\<close> or \<^verbatim>\<open>undefined\<close>
  (\<open>NoReply\<close>); or resolves with a reply (\<open>Reply\<close>: its \<^verbatim>\<open>status\<close> and \<^verbatim>\<open>message\<close>, a
  missing one being the empty string); or throws or rejects with a value other than \<^verbatim>\<open>null\<close>
  and \<^verbatim>\<open>undefined\<close> (\<open>Threw\<close>: its \<^verbatim>\<open>message\<close>, a missing one being the empty string); or
  throws or rejects with \<^verbatim>\<open>null\<close> or \<^verbatim>\<open>undefined\<close> (\<open>ThrewNullish\<close>). The run time supplies
  the local clock, the delay timer, the conversion \<^verbatim>\<open>Number\<close> (\<open>None\<close> is \<^verbatim>\<open>NaN\<close>) and the
  string functions \<^verbatim>\<open>toLowerCase()\<close> and \<^verbatim>\<open>replace(/\s+/g, '_')\<close>, which follow Unicode.
  The log callback is taken to return normally; its messages are not part of the model.
\<close>

datatype exec_result = NoReply | Reply string string | Threw string | ThrewNullish

record 'w runtime =
  hours :: "'w \<Rightarrow> int"
  minutes :: "'w \<Rightarrow> int"
  clock :: "'w \<Rightarrow> int"
  sleep :: "int \<Rightarrow> 'w \<Rightarrow> 'w"
  toNumber :: "string \<Rightarrow> real option"
  toLowerCase :: "string \<Rightarrow> string"
  spacesToUnderscores :: "string \<Rightarrow> string"

record 'w workflow_engine =
  workflows :: "(string \<times> workflow) list"
  executor :: "(obj \<Rightarrow> 'w \<Rightarrow> exec_result \<times> 'w) option"

fun splitOn :: "char \<Rightarrow> string \<Rightarrow> string \<Rightarrow> string list" where
  \<comment> \<open>\<^verbatim>\<open>s.split(sep)\<close> for a one-character separator.\<close>
  "splitOn sep cur [] = [cur]"
| "splitOn sep cur (c # cs) =
     (if c = sep then cur # splitOn sep [] cs else splitOn sep (cur @ [c]) cs)"

definition nthNumber :: "real option list \<Rightarrow> nat \<Rightarrow> real option" where
  \<comment> \<open>Destructuring: a missing element is \<^verbatim>\<open>undefined\<close>, which compares like \<^verbatim>\<open>NaN\<close>.\<close>
  "nthNumber xs i = (if i < length xs then xs ! i else None)"

definition evaluateCondition :: "'w runtime \<Rightarrow> step_condition \<Rightarrow> 'w \<Rightarrow> bool" where
  "evaluateCondition rt c w =
     (let hm = (case cond_value c of
                  None \<Rightarrow> None
                | Some v \<Rightarrow>
                    if v = [] then None
                    else (let parts = map (toNumber rt) (splitOn CHR '':'' [] v)
                          in Some (nthNumber parts 0, nthNumber parts 1)))
      in case cond_type c of
           Always \<Rightarrow> True
         | TimeAfter \<Rightarrow>
             (case hm of
                None \<Rightarrow> True
              | Some (h, m) \<Rightarrow>
                  (case h of None \<Rightarrow> False | Some hv \<Rightarrow> real_of_int (hours rt w) > hv)
                  \<or> ((case h of None \<Rightarrow> False | Some hv \<Rightarrow> real_of_int (hours rt w) = hv)
                     \<and> (case m of None \<Rightarrow> False | Some mv \<Rightarrow> real_of_int (minutes rt w) \<ge> mv)))
         | TimeBefore \<Rightarrow>
             (case hm of
                None \<Rightarrow> True
              | Some (h, m) \<Rightarrow>
                  (case h of None \<Rightarrow> False | Some hv \<Rightarrow> real_of_int (hours rt w) < hv)
                  \<or> ((case h of None \<Rightarrow> False | Some hv \<Rightarrow> real_of_int (hours rt w) = hv)
                     \<and> (case m of None \<Rightarrow> False | Some mv \<Rightarrow> real_of_int (minutes rt w) < mv)))
         | BridgeActive \<Rightarrow> True)"

definition orElse :: "string \<Rightarrow> string \<Rightarrow> string" where
  \<comment> \<open>\<^verbatim>\<open>s || d\<close> on strings\<close>
  "orElse s d = (if s = [] then d else s)"

definition stepCommand :: "workflow_step \<Rightarrow> obj" where
  "stepCommand step =
     [(''action'', JStr (action step)),
      (''target'', JStr (case target step of None \<Rightarrow> [] | Some t \<Rightarrow> t)),
      (''payload'', JStr (case payload step of None \<Rightarrow> [] | Some t \<Rightarrow> t)),
      (''extra'', JStr (case extra step of None \<Rightarrow> [] | Some t \<Rightarrow> t))]"

datatype attempt_end = Succeeded | Exhausted | CatchThrew js_error

fun attemptLoop ::
  "(obj \<Rightarrow> 'w \<Rightarrow> exec_result \<times> 'w) \<Rightarrow> obj \<Rightarrow> nat \<Rightarrow> string \<Rightarrow> 'w
    \<Rightarrow> attempt_end \<times> string \<times> obj list \<times> 'w" where
  \<comment> \<open>The \<^verbatim>\<open>while (attempts < maxAttempts && !success)\<close> loop, by the number of attempts
      left. The result: how the loop ended (\<^verbatim>\<open>success\<close>, attempts used up, or an exception
      raised inside the \<^verbatim>\<open>catch\<close> block, where \<^verbatim>\<open>e.message\<close> is read), \<^verbatim>\<open>resultMsg\<close>, the
      commands handed to the executor, and the world afterwards.\<close>
  "attemptLoop exec cmd 0 msg w = (Exhausted, msg, [], w)"
| "attemptLoop exec cmd (Suc n) msg w =
     (case exec cmd w of (r, w') \<Rightarrow>
        (case r of
           ThrewNullish \<Rightarrow>
             (CatchThrew (TypeError ''Cannot read properties of undefined''), msg, [cmd], w')
         | Threw m \<Rightarrow>
             (case attemptLoop exec cmd n (orElse m ''Error'') w' of (e, msg', calls, w'') \<Rightarrow>
                (e, msg', cmd # calls, w''))
         | NoReply \<Rightarrow> (Succeeded, ''OK'', [cmd], w')
         | Reply st m \<Rightarrow>
             if st \<noteq> ''error'' then (Succeeded, orElse m ''OK'', [cmd], w')
             else (case attemptLoop exec cmd n (orElse m ''OK'') w' of (e, msg', calls, w'') \<Rightarrow>
                     (e, msg', cmd # calls, w''))))"

definition conditionFails :: "'w runtime \<Rightarrow> workflow_step \<Rightarrow> 'w \<Rightarrow> bool" where
  \<comment> \<open>\<^verbatim>\<open>step.condition && !this.evaluateCondition(step.condition)\<close>\<close>
  "conditionFails rt step w =
     (case condition step of None \<Rightarrow> False | Some c \<Rightarrow> \<not> evaluateCondition rt c w)"

definition delayed :: "'w runtime \<Rightarrow> workflow_step \<Rightarrow> 'w \<Rightarrow> 'w" where
  "delayed rt step w =
     (case delayMs step of None \<Rightarrow> w | Some d \<Rightarrow> if d > 0 then sleep rt d w else w)"

definition maxAttempts :: "workflow_step \<Rightarrow> int" where
  \<comment> \<open>\<^verbatim>\<open>step.retries || 1\<close>, for a whole number of retries\<close>
  "maxAttempts step = (case retries step of None \<Rightarrow> 1 | Some r \<Rightarrow> if r = 0 then 1 else r)"

definition executeStep ::
  "'w runtime \<Rightarrow> (obj \<Rightarrow> 'w \<Rightarrow> exec_result \<times> 'w) \<Rightarrow> workflow_step \<Rightarrow> 'w
    \<Rightarrow> (js_error + bool \<times> step_result) \<times> obj list \<times> 'w" where
  \<comment> \<open>Lines 250-284, for a step whose condition holds: delay, attempts, and either the
      exception that leaves the function or \<^verbatim>\<open>success\<close> with the recorded result.\<close>
  "executeStep rt exec step w =
     (let w1 = delayed rt step w;
          stepStart = clock rt w1
      in case attemptLoop exec (stepCommand step) (nat (maxAttempts step)) [] w1 of
           (ending, resultMsg, calls, w2) \<Rightarrow>
             (case ending of
                CatchThrew err \<Rightarrow> (Inl err, calls, w2)
              | _ \<Rightarrow>
                  (Inr (ending = Succeeded,
                        \<lparr>stepId = step_id step, sr_action = action step,
                         sr_status = (if ending = Succeeded then StepSuccess else StepFailed),
                         sr_result = resultMsg, duration = clock rt w2 - stepStart\<rparr>),
                   calls, w2)))"

definition skippedResult :: "workflow_step \<Rightarrow> step_result" where
  "skippedResult step =
     \<lparr>stepId = step_id step, sr_action = action step, sr_status = StepSkipped,
      sr_result = ''Condition not met'', duration = 0\<rparr>"

datatype loop_exit = LoopEnded | LoopBroke | LoopThrew js_error

fun runSteps ::
  "'w runtime \<Rightarrow> (obj \<Rightarrow> 'w \<Rightarrow> exec_result \<times> 'w) \<Rightarrow> workflow_step list \<Rightarrow> 'w
    \<Rightarrow> step_result list \<times> obj list \<times> loop_exit \<times> 'w" where
  \<comment> \<open>The \<^verbatim>\<open>for\<close> loop over the steps: \<^verbatim>\<open>stepResults\<close>, the commands handed to the executor,
      how the loop was left (at its end, by \<^verbatim>\<open>break\<close>, or by an exception), and the world
      afterwards.\<close>
  "runSteps rt exec [] w = ([], [], LoopEnded, w)"
| "runSteps rt exec (step # rest) w =
     (if conditionFails rt step w
      then (case runSteps rt exec rest w of (rs, calls, ex, w') \<Rightarrow>
              (skippedResult step # rs, calls, ex, w'))
      else (case executeStep rt exec step w of
              (Inl err, calls, w2) \<Rightarrow> ([], calls, LoopThrew err, w2)
            | (Inr (success, r), calls, w2) \<Rightarrow>
                if \<not> success \<and> onFailure step = Some Abort then ([r], calls, LoopBroke, w2)
                else (case runSteps rt exec rest w2 of (rs, calls', ex, w3) \<Rightarrow>
                        (r # rs, calls @ calls', ex, w3))))"

definition resolveWorkflow ::
  "'w runtime \<Rightarrow> (string \<times> workflow) list \<Rightarrow> string \<Rightarrow> (string \<times> workflow) option" where
  \<comment> \<open>Lines 207-218: by map key, else the first entry whose name matches.\<close>
  "resolveWorkflow rt wfs idOrName =
     (case map_of wfs idOrName of
        Some flow \<Rightarrow> Some (idOrName, flow)
      | None \<Rightarrow>
          find (\<lambda>(k, flow). toLowerCase rt (wf_name flow) = toLowerCase rt idOrName
                         \<or> spacesToUnderscores rt (toLowerCase rt (wf_name flow))
                             = toLowerCase rt idOrName)
            wfs)"

definition runStatus :: "step_result list \<Rightarrow> run_status" where
  \<comment> \<open>Lines 299-308\<close>
  "runStatus stepResults =
     (let allSucceeded = list_all (\<lambda>s. sr_status s = StepSuccess \<or> sr_status s = StepSkipped) stepResults;
          allFailed = list_all (\<lambda>s. sr_status s = StepFailed) stepResults
      in if allSucceeded then RunCompleted else if allFailed then RunFailed else RunPartial)"

definition executeWorkflow ::
  "'w runtime \<Rightarrow> 'w workflow_engine \<Rightarrow> string \<Rightarrow> 'w
    \<Rightarrow> (js_error + workflow_result option) \<times> 'w workflow_engine \<times> obj list \<times> 'w" where
  \<comment> \<open>The result is the exception the call ends with, \<^verbatim>\<open>null\<close>, or the run's result; then
      the engine, the commands handed to the executor, and the world afterwards.\<close>
  "executeWorkflow rt eng idOrName w =
     (case executor eng of
        None \<Rightarrow> (Inr None, eng, [], w)
      | Some exec \<Rightarrow>
          (case resolveWorkflow rt (workflows eng) idOrName of
             None \<Rightarrow> (Inr None, eng, [], w)
           | Some (k, flow) \<Rightarrow>
               if \<not> wf_enabled flow then (Inr None, eng, [], w)
               else (case runSteps rt exec (steps flow) w of (stepResults, calls, ex, w') \<Rightarrow>
                       (case ex of
                          LoopThrew err \<Rightarrow> (Inl err, eng, calls, w')
                        | _ \<Rightarrow>
                            (Inr (Some \<lparr>workflowId = wf_id flow, workflowName = wf_name flow,
                                        startedAt = clock rt w, completedAt = clock rt w',
                                        res_steps = stepResults,
                                        res_status = runStatus stepResults\<rparr>),
                             eng\<lparr>workflows :=
                                   map (\<lambda>(k', v). if k' = k
                                                   then (k', flow\<lparr>lastRun := Some (clock rt w'),
                                                                runCount := runCount flow + 1\<rparr>)
                                                   else (k', v))
                                     (workflows eng)\<rparr>,
                             calls, w')))))"

definition addWorkflow :: "workflow \<Rightarrow> 'w workflow_engine \<Rightarrow> 'w workflow_engine" where
  \<comment> \<open>\<^verbatim>\<open>Map.set\<close>: an existing key keeps its place, a new key goes last.\<close>
  "addWorkflow flow eng =
     eng\<lparr>workflows :=
           (if map_of (workflows eng) (wf_id flow) = None
            then workflows eng @ [(wf_id flow, flow\<lparr>runCount := 0\<rparr>)]
            else map (\<lambda>(k', v). if k' = wf_id flow then (k', flow\<lparr>runCount := 0\<rparr>) else (k', v))
                   (workflows eng))\<rparr>"


section \<open>Invariants, sample inputs and auxiliary notions\<close>

definition setBridgeSender :: "(obj \<Rightarrow> send_result) \<Rightarrow> command_queue \<Rightarrow> command_queue" where
  "setBridgeSender sender s = s\<lparr>bridgeSender := Some sender\<rparr>"

definition queueInv :: "command_queue \<Rightarrow> bool" where
  \<comment> \<open>What every queue built by \<^verbatim>\<open>enqueue\<close> calls satisfies.\<close>
  "queueInv s =
     (sorted_wrt servedBefore (queue s) \<and> list_all (\<lambda>q. oid q < allocated s) (queue s)
      \<and> length (queue s) \<le> maxSize s)"

definition lowCall :: "nat option \<Rightarrow> enqueue_call" where
  "lowCall h =
     \<lparr>c_command = [(''action'', JStr ''open_app'')], c_priority = Low, c_maxRetries = 3,
      c_onComplete = None, c_onError = h, c_now = 1700000000000, c_rnd = ''k3x9qa''\<rparr>"

definition fullLowQueue :: command_queue where
  \<comment> \<open>A queue at capacity: one hundred \<^verbatim>\<open>low\<close> commands enqueued on a new queue.\<close>
  "fullLowQueue = enqueueAll (replicate 100 (lowCall None))"

definition testCalls :: "enqueue_call list" where
  \<comment> \<open>The three calls of tests/commandQueue.test.ts.\<close>
  "testCalls =
     [\<lparr>c_command = [(''action'', JStr ''normal'')], c_priority = Normal, c_maxRetries = 3,
       c_onComplete = None, c_onError = None, c_now = 1700000000000, c_rnd = ''a1b2c3''\<rparr>,
      \<lparr>c_command = [(''action'', JStr ''critical'')], c_priority = Critical, c_maxRetries = 3,
       c_onComplete = None, c_onError = None, c_now = 1700000000000, c_rnd = ''d4e5f6''\<rparr>,
      \<lparr>c_command = [(''action'', JStr ''low'')], c_priority = Low, c_maxRetries = 3,
       c_onComplete = None, c_onError = None, c_now = 1700000000001, c_rnd = ''g7h8i9''\<rparr>]"

definition overflowVictim :: "queued_command \<Rightarrow> command_queue \<Rightarrow> queued_command" where
  \<comment> \<open>The item \<^verbatim>\<open>pop()\<close> removes once \<open>item\<close> has been inserted.\<close>
  "overflowVictim item s = last (insertByPriority item (queue s))"

definition newAlertCalls :: "nat \<Rightarrow> system_monitor \<Rightarrow> system_monitor \<Rightarrow> (alert_rule \<times> real) list" where
  \<comment> \<open>The callback invocations for the rule at position \<open>i\<close> made between two states.\<close>
  "newAlertCalls i s s' = callsFor i (drop (length (alertCalls s)) (alertCalls s'))"

definition cpuHigh :: alert_rule where
  \<comment> \<open>The first default rule.\<close>
  "cpuHigh =
     \<lparr>rule_id = ''cpu_high'', rule_metric = Cpu, threshold = 90, rule_direction = Above,
      rule_message = ''CPU usage critical: {value}%'', cooldownMs = 60000,
      lastTriggered = 0, rule_enabled = True\<rparr>"

definition batterySnapshot :: "real \<Rightarrow> system_snapshot" where
  "batterySnapshot b =
     \<lparr>cpu_percent = 20, memory_percent = 40, disk_percent = 50, battery_percent = Some b\<rparr>"

definition threeKeys :: key_manager where
  \<comment> \<open>A pool of three credentials: the current one, one cooling down, one healthy.\<close>
  "threeKeys =
     \<lparr>keys =
        [\<lparr>key = ''AIzaSy-first-key'', failureCount = 0, lastFailure = None,
          cooldownUntil = 0, successCount = 4\<rparr>,
         \<lparr>key = ''AIzaSy-second-key'', failureCount = 1, lastFailure = Some 1699999990000,
          cooldownUntil = 1700000050000, successCount = 9\<rparr>,
         \<lparr>key = ''AIzaSy-third-key'', failureCount = 2, lastFailure = Some 1699999000000,
          cooldownUntil = 1699999060000, successCount = 5\<rparr>],
      currentIndex = 0\<rparr>"

text \<open>
  A concrete run: the world is a millisecond counter, every executor call takes 5 ms, and the
  remote side answers with an error status for the action \<^verbatim>\<open>bad_action\<close> only.
\<close>

definition isAsciiSpace :: "char \<Rightarrow> bool" where
  "isAsciiSpace c = (c \<in> set [CHR 0x20, CHR 0x09, CHR 0x0A, CHR 0x0B, CHR 0x0C, CHR 0x0D])"

fun asciiUnderscored :: "bool \<Rightarrow> string \<Rightarrow> string" where
  \<comment> \<open>\<^verbatim>\<open>replace(/\s+/g, '_')\<close> on ASCII text; the flag says that the previous character was
      white space.\<close>
  "asciiUnderscored inRun [] = []"
| "asciiUnderscored inRun (c # cs) =
     (if isAsciiSpace c
      then (if inRun then asciiUnderscored True cs else CHR ''_'' # asciiUnderscored True cs)
      else c # asciiUnderscored False cs)"

definition demoRuntime :: "nat runtime" where
  "demoRuntime =
     \<lparr>hours = (\<lambda>w. 10), minutes = (\<lambda>w. 30), clock = (\<lambda>w. int w),
      sleep = (\<lambda>d w. w + nat d), toNumber = (\<lambda>s. None),
      toLowerCase = asciiLowerCase, spacesToUnderscores = asciiUnderscored False\<rparr>"

definition demoExecutor :: "obj \<Rightarrow> nat \<Rightarrow> exec_result \<times> nat" where
  "demoExecutor cmd w =
     (if getProp cmd ''action'' = JStr ''bad_action''
      then (Reply ''error'' ''Unknown action'', w + 5)
      else (Reply ''success'' ''done'', w + 5))"

definition demoStep :: "string \<Rightarrow> string \<Rightarrow> failure_policy option \<Rightarrow> int option \<Rightarrow> workflow_step" where
  "demoStep sid act policy n =
     \<lparr>step_id = sid, action = act, target = None, payload = None, extra = None,
      delayMs = None, condition = None, onFailure = policy, retries = n\<rparr>"

definition demoWorkflow :: "workflow_step list \<Rightarrow> workflow" where
  "demoWorkflow ss =
     \<lparr>wf_id = ''demo'', wf_name = ''Demo Mode'', description = ''three steps'', steps = ss,
      trigger = Manual, schedule = None, wf_enabled = True, lastRun = None, runCount = 0\<rparr>"

definition demoEngine :: "workflow_step list \<Rightarrow> nat workflow_engine" where
  "demoEngine ss = \<lparr>workflows = [(''demo'', demoWorkflow ss)], executor = Some demoExecutor\<rparr>"

definition abortSteps :: "workflow_step list" where
  \<comment> \<open>The second step fails on both of its attempts and aborts the run.\<close>
  "abortSteps =
     [demoStep ''s1'' ''open_app'' None None,
      demoStep ''s2'' ''bad_action'' (Some Abort) (Some 2),
      demoStep ''s3'' ''lock'' None None]"

definition skipSteps :: "workflow_step list" where
  \<comment> \<open>The same steps, the second with the policy \<^verbatim>\<open>skip\<close>.\<close>
  "skipSteps =
     [demoStep ''s1'' ''open_app'' None None,
      demoStep ''s2'' ''bad_action'' (Some Skip) (Some 2),
      demoStep ''s3'' ''lock'' None None]"

definition formatCommand :: obj where
  \<comment> \<open>A destructive payload written in upper case.\<close>
  "formatCommand = [(''action'', JStr ''Shell_Execute''), (''payload'', JStr ''FORMAT C: /q'')]"

definition shutdownCommand :: obj where
  "shutdownCommand = [(''action'', JStr ''shutdown''), (''target'', JStr ''now'')]"

definition nonceCommand :: obj where
  \<comment> \<open>A command that already carries a property called \<^verbatim>\<open>nonce\<close>.\<close>
  "nonceCommand = [(''action'', JStr ''open_app''), (''nonce'', JStr ''caller-value'')]"

definition demoAuth :: bridge_authenticator where
  "demoAuth = \<lparr>token = ''jerry-bridge-token''\<rparr>"

definition zeroBytes :: "nat \<Rightarrow> 8 word" where
  \<comment> \<open>A random source that yields sixteen zero bytes.\<close>
  "zeroBytes i = 0"

definition countingBytes :: "nat \<Rightarrow> 8 word" where
  \<comment> \<open>The bytes 0x00, 0x11, ..., 0xff.\<close>
  "countingBytes i = of_nat (17 * i)"

definition tiedKeys :: key_manager where
  \<comment> \<open>Two candidates whose scores would tie in exact arithmetic: one failure each, 1808 ms
      and no success against 2808 ms and one success, at the clock reading 1700000000000.\<close>
  "tiedKeys =
     \<lparr>keys =
        [\<lparr>key = ''AIzaSy-first-key'', failureCount = 0, lastFailure = None,
          cooldownUntil = 0, successCount = 0\<rparr>,
         \<lparr>key = ''AIzaSy-second-key'', failureCount = 1, lastFailure = Some 1699999941808,
          cooldownUntil = 1700000001808, successCount = 0\<rparr>,
         \<lparr>key = ''AIzaSy-third-key'', failureCount = 1, lastFailure = Some 1699999942808,
          cooldownUntil = 1700000002808, successCount = 1\<rparr>],
      currentIndex = 0\<rparr>"

definition nullRejectingExecutor :: "obj \<Rightarrow> nat \<Rightarrow> exec_result \<times> nat" where
  \<comment> \<open>An executor whose promise is rejected without a reason for the action
      \<^verbatim>\<open>bad_action\<close>.\<close>
  "nullRejectingExecutor cmd w =
     (if getProp cmd ''action'' = JStr ''bad_action''
      then (ThrewNullish, w + 5)
      else (Reply ''success'' ''done'', w + 5))"

definition rejectingEngine :: "workflow_step list \<Rightarrow> nat workflow_engine" where
  "rejectingEngine ss =
     \<lparr>workflows = [(''demo'', demoWorkflow ss)], executor = Some nullRejectingExecutor\<rparr>"

definition skipFirstSteps :: "workflow_step list" where
  \<comment> \<open>The first step fails and has the policy \<^verbatim>\<open>skip\<close>.\<close>
  "skipFirstSteps =
     [demoStep ''s1'' ''bad_action'' (Some Skip) None,
      demoStep ''s2'' ''lock'' None None]"

definition numberTargetCommand :: obj where
  \<comment> \<open>\<^verbatim>\<open>{ action: 'shutdown', target: 50 }\<close>\<close>
  "numberTargetCommand = [(''action'', JStr ''shutdown''), (''target'', JNum 50)]"

definition lateRejectSteps :: "workflow_step list" where
  \<comment> \<open>The first step succeeds; the second one fails and has the policy \<^verbatim>\<open>skip\<close>.\<close>
  "lateRejectSteps =
     [demoStep ''s1'' ''open_app'' None None,
      demoStep ''s2'' ''bad_action'' (Some Skip) None]"

section \<open>Priority order of the queue\<close>

lemma findIndexFrom_Suc:
  "findIndexFrom (Suc i) P xs = map_option Suc (findIndexFrom i P xs)"
  by (induction xs arbitrary: i) simp_all

lemma findIndex_Nil: "findIndex P [] = None"
  by (simp add: findIndex_def)

lemma findIndex_Cons:
  "findIndex P (x # xs) = (if P x then Some 0 else map_option Suc (findIndex P xs))"
  by (simp add: findIndex_def findIndexFrom_Suc)

lemma insertByPriority_Nil: "insertByPriority item [] = [item]"
  by (simp add: insertByPriority_def findIndex_Nil)

lemma insertByPriority_Cons:
  "insertByPriority item (y # ys) =
     (if priorityOrder (priority y) > priorityOrder (priority item) then item # y # ys
      else y # insertByPriority item ys)"
  by (simp add: insertByPriority_def findIndex_Cons split: option.splits)

lemma insertByPriority_tail:
  "\<forall>x\<in>set q. priorityOrder (priority x) \<le> priorityOrder (priority item)
    \<Longrightarrow> insertByPriority item q = q @ [item]"
  by (induction q) (simp_all add: insertByPriority_Nil insertByPriority_Cons)

lemma length_insertByPriority: "length (insertByPriority item q) = Suc (length q)"
  by (induction q) (simp_all add: insertByPriority_Nil insertByPriority_Cons)

lemma set_insertByPriority: "set (insertByPriority item q) = insert item (set q)"
  by (induction q) (auto simp add: insertByPriority_Nil insertByPriority_Cons)

lemma insertByPriority_not_Nil: "insertByPriority item q \<noteq> []"
  using length_insertByPriority [of item q] by (cases "insertByPriority item q") simp_all

lemma insertByPriority_not_tail:
  "\<exists>x\<in>set q. priorityOrder (priority x) > priorityOrder (priority item)
    \<Longrightarrow> q \<noteq> [] \<and> last (insertByPriority item q) = last q"
  by (induction q)
    (auto simp add: insertByPriority_Nil insertByPriority_Cons insertByPriority_not_Nil)

lemma priorityOrder_inj: "priorityOrder a = priorityOrder b \<longleftrightarrow> a = b"
  by (cases a; cases b) (simp_all add: priorityOrder_def)

lemma servedBefore_order:
  "servedBefore a b \<Longrightarrow> priorityOrder (priority a) \<le> priorityOrder (priority b)"
  by (auto simp add: servedBefore_def)

lemma sorted_insertByPriority:
  "sorted_wrt servedBefore q \<Longrightarrow> \<forall>x\<in>set q. oid x < oid item
    \<Longrightarrow> sorted_wrt servedBefore (insertByPriority item q)"
proof (induction q)
  case Nil
  then show ?case by (simp add: insertByPriority_Nil)
next
  case (Cons y ys)
  show ?case
  proof (cases "priorityOrder (priority y) > priorityOrder (priority item)")
    case True
    have "\<forall>z\<in>set ys. servedBefore item z"
    proof
      fix z assume "z \<in> set ys"
      with Cons.prems(1) have "servedBefore y z" by simp
      from servedBefore_order [OF this] True show "servedBefore item z"
        by (simp add: servedBefore_def)
    qed
    with True Cons.prems(1) show ?thesis
      by (simp add: insertByPriority_Cons servedBefore_def)
  next
    case False
    have yi: "servedBefore y item"
      using False Cons.prems(2)
      by (auto simp add: servedBefore_def priorityOrder_inj [symmetric])
    from Cons have "sorted_wrt servedBefore (insertByPriority item ys)" by simp
    with False yi Cons.prems(1) show ?thesis
      by (auto simp add: insertByPriority_Cons set_insertByPriority)
  qed
qed

lemma sorted_wrt_butlast: "sorted_wrt P xs \<Longrightarrow> sorted_wrt P (butlast xs)"
  by (induction xs) (auto dest: in_set_butlastD)

lemma sorted_wrt_last:
  "sorted_wrt P xs \<Longrightarrow> x \<in> set (butlast xs) \<Longrightarrow> P x (last xs)"
  by (induction xs) (auto split: if_splits dest: in_set_butlastD)

text \<open>The three results of a call, one lemma each.\<close>

lemma enqueue_item:
  "fst (enqueue cmd prio mr onC onE now rnd s) =
     \<lparr>oid = allocated s, ident = (now, rnd), command = cmd, priority = prio,
      addedAt = now, attempts = 0, maxRetries = mr, status = Queued,
      onComplete = onC, onError = onE\<rparr>"
  by (simp add: enqueue_def Let_def)

lemma enqueue_queue:
  "queue (snd (enqueue cmd prio mr onC onE now rnd s)) =
     (let q1 = insertByPriority (fst (enqueue cmd prio mr onC onE now rnd s)) (queue s)
      in if length q1 > maxSize s then butlast q1 else q1)"
  by (simp add: enqueue_def Let_def split: option.splits)

lemma enqueue_errorCalls:
  "errorCalls (snd (enqueue cmd prio mr onC onE now rnd s)) =
     (let q1 = insertByPriority (fst (enqueue cmd prio mr onC onE now rnd s)) (queue s)
      in if length q1 > maxSize s
         then errorCalls s @ (case onError (last q1) of None \<Rightarrow> [] | Some h \<Rightarrow> [(h, overflowNotice)])
         else errorCalls s)"
  by (simp add: enqueue_def Let_def split: option.splits)

lemma enqueue_fields:
  "allocated (snd (enqueue cmd prio mr onC onE now rnd s)) = Suc (allocated s)"
  "maxSize (snd (enqueue cmd prio mr onC onE now rnd s)) = maxSize s"
  "bridgeSender (snd (enqueue cmd prio mr onC onE now rnd s)) = bridgeSender s"
  "processing (snd (enqueue cmd prio mr onC onE now rnd s)) = processing s"
  by (simp_all add: enqueue_def Let_def split: option.splits)

lemma enqueue_item_sel:
  "oid (fst (enqueue cmd prio mr onC onE now rnd s)) = allocated s"
  "priority (fst (enqueue cmd prio mr onC onE now rnd s)) = prio"
  "onError (fst (enqueue cmd prio mr onC onE now rnd s)) = onE"
  "status (fst (enqueue cmd prio mr onC onE now rnd s)) = Queued"
  by (simp_all add: enqueue_item)

lemma enqueue_preserves_inv:
  assumes "queueInv s"
  shows "queueInv (snd (enqueue cmd prio mr onC onE now rnd s))"
proof -
  let ?item = "fst (enqueue cmd prio mr onC onE now rnd s)"
  let ?q1 = "insertByPriority ?item (queue s)"
  from assms have fresh: "\<forall>x\<in>set (queue s). oid x < oid ?item"
    by (simp add: queueInv_def list_all_iff enqueue_item_sel)
  from assms have "sorted_wrt servedBefore (queue s)" by (simp add: queueInv_def)
  from sorted_insertByPriority [OF this fresh] have s1: "sorted_wrt servedBefore ?q1" .
  have a1: "\<forall>x\<in>set ?q1. oid x < Suc (allocated s)"
    using fresh by (auto simp add: set_insertByPriority enqueue_item_sel)
  have len: "length ?q1 = Suc (length (queue s))" by (rule length_insertByPriority)
  from assms have le: "length (queue s) \<le> maxSize s" by (simp add: queueInv_def)
  show ?thesis
  proof (cases "length ?q1 > maxSize s")
    case True
    with s1 a1 len le show ?thesis
      by (auto simp add: queueInv_def enqueue_queue enqueue_fields Let_def list_all_iff
            sorted_wrt_butlast dest: in_set_butlastD)
  next
    case False
    with s1 a1 len le show ?thesis
      by (auto simp add: queueInv_def enqueue_queue enqueue_fields Let_def list_all_iff)
  qed
qed

lemma enqueueAll_Nil: "enqueueAll [] = newCommandQueue"
  by (simp add: enqueueAll_def)

lemma enqueueAll_snoc: "enqueueAll (cs @ [c]) = enqueueCall c (enqueueAll cs)"
  by (simp add: enqueueAll_def)

lemma queueInv_new: "queueInv newCommandQueue"
  by (simp add: queueInv_def newCommandQueue_def)

lemma queueInv_enqueueAll: "queueInv (enqueueAll cs)"
  by (induction cs rule: rev_induct)
    (simp_all add: enqueueAll_Nil enqueueAll_snoc queueInv_new enqueueCall_def enqueue_preserves_inv)

lemma maxSize_enqueueAll: "maxSize (enqueueAll cs) = 100"
  by (induction cs rule: rev_induct)
    (simp_all add: enqueueAll_Nil enqueueAll_snoc newCommandQueue_def enqueueCall_def enqueue_fields)

lemma allocated_enqueueAll: "allocated (enqueueAll cs) = length cs"
  by (induction cs rule: rev_induct)
    (simp_all add: enqueueAll_Nil enqueueAll_snoc newCommandQueue_def enqueueCall_def enqueue_fields)

lemma all_queued_enqueue:
  assumes "\<forall>q\<in>set (queue s). status q = Queued"
  shows "\<forall>q\<in>set (queue (snd (enqueue cmd prio mr onC onE now rnd s))). status q = Queued"
  using assms
  by (auto simp add: enqueue_queue Let_def set_insertByPriority enqueue_item_sel
        dest!: in_set_butlastD)

lemma all_queued_enqueueAll: "\<forall>q\<in>set (queue (enqueueAll cs)). status q = Queued"
  by (induction cs rule: rev_induct)
    (simp_all add: enqueueAll_Nil enqueueAll_snoc newCommandQueue_def enqueueCall_def
       all_queued_enqueue)

lemma length_enqueueAll: "length (queue (enqueueAll cs)) = min (length cs) 100"
proof (induction cs rule: rev_induct)
  case Nil
  show ?case by (simp add: enqueueAll_Nil newCommandQueue_def)
next
  case (snoc c cs)
  then show ?case
    by (simp add: enqueueAll_snoc enqueueCall_def enqueue_queue Let_def
          length_insertByPriority maxSize_enqueueAll)
qed

lemma priorities_enqueueAll:
  "\<forall>q\<in>set (queue (enqueueAll cs)). priority q \<in> c_priority ` set cs"
proof (induction cs rule: rev_induct)
  case Nil
  show ?case by (simp add: enqueueAll_Nil newCommandQueue_def)
next
  case (snoc c cs)
  then show ?case
    by (auto simp add: enqueueAll_snoc enqueueCall_def enqueue_queue Let_def
          set_insertByPriority enqueue_item_sel dest!: in_set_butlastD)
qed

lemma silent_enqueue:
  assumes "\<forall>q\<in>set (queue s). onError q = None" and "errorCalls s = []"
  shows "(\<forall>q\<in>set (queue (snd (enqueue cmd prio mr onC None now rnd s))). onError q = None)
         \<and> errorCalls (snd (enqueue cmd prio mr onC None now rnd s)) = []"
proof -
  let ?item = "fst (enqueue cmd prio mr onC None now rnd s)"
  have all: "\<forall>q\<in>set (insertByPriority ?item (queue s)). onError q = None"
    using assms(1) by (simp add: set_insertByPriority enqueue_item_sel)
  have "last (insertByPriority ?item (queue s)) \<in> set (insertByPriority ?item (queue s))"
    by (rule last_in_set) (rule insertByPriority_not_Nil)
  with all have "onError (last (insertByPriority ?item (queue s))) = None" by blast
  with all assms(2) show ?thesis
    by (auto simp add: enqueue_queue enqueue_errorCalls Let_def dest!: in_set_butlastD)
qed

lemma silent_enqueueAll:
  "\<forall>c\<in>set cs. c_onError c = None
    \<Longrightarrow> (\<forall>q\<in>set (queue (enqueueAll cs)). onError q = None) \<and> errorCalls (enqueueAll cs) = []"
proof (induction cs rule: rev_induct)
  case Nil
  show ?case by (simp add: enqueueAll_Nil newCommandQueue_def)
next
  case (snoc c cs)
  then have "(\<forall>q\<in>set (queue (enqueueAll cs)). onError q = None) \<and> errorCalls (enqueueAll cs) = []"
    and "c_onError c = None" by simp_all
  then show ?case
    using silent_enqueue [of "enqueueAll cs"]
    by (simp add: enqueueAll_snoc enqueueCall_def)
qed

lemma fullLowQueue_facts:
  "length (queue fullLowQueue) = 100"
  "maxSize fullLowQueue = 100"
  "allocated fullLowQueue = 100"
  "errorCalls fullLowQueue = []"
  "queueInv fullLowQueue"
  "\<forall>q\<in>set (queue fullLowQueue). priority q = Low"
  using priorities_enqueueAll [of "replicate 100 (lowCall None)"]
    silent_enqueueAll [of "replicate 100 (lowCall None)"]
  by (auto simp add: fullLowQueue_def length_enqueueAll maxSize_enqueueAll allocated_enqueueAll
        queueInv_enqueueAll lowCall_def)

text \<open>A full queue whose items all rank at least as high as the new one.\<close>

lemma enqueue_full_tail:
  assumes full: "length (queue s) = maxSize s"
    and rank: "\<forall>q\<in>set (queue s). priorityOrder (priority q) \<le> priorityOrder prio"
  shows "queue (snd (enqueue cmd prio mr onC onE now rnd s)) = queue s"
    and "errorCalls (snd (enqueue cmd prio mr onC onE now rnd s)) =
           errorCalls s @ (case onE of None \<Rightarrow> [] | Some h \<Rightarrow> [(h, overflowNotice)])"
    and "insertByPriority (fst (enqueue cmd prio mr onC onE now rnd s)) (queue s) =
           queue s @ [fst (enqueue cmd prio mr onC onE now rnd s)]"
proof -
  let ?item = "fst (enqueue cmd prio mr onC onE now rnd s)"
  from rank have "\<forall>q\<in>set (queue s). priorityOrder (priority q) \<le> priorityOrder (priority ?item)"
    by (simp add: enqueue_item_sel)
  from insertByPriority_tail [OF this]
  show ins: "insertByPriority ?item (queue s) = queue s @ [?item]" .
  from ins full show "queue (snd (enqueue cmd prio mr onC onE now rnd s)) = queue s"
    by (simp add: enqueue_queue Let_def)
  from ins full show "errorCalls (snd (enqueue cmd prio mr onC onE now rnd s)) =
           errorCalls s @ (case onE of None \<Rightarrow> [] | Some h \<Rightarrow> [(h, overflowNotice)])"
    by (simp add: enqueue_errorCalls Let_def enqueue_item_sel)
qed

text \<open>
  Claim C10. When the queue is at capacity and no queued item ranks below the new command,
  \<^verbatim>\<open>enqueue\<close> puts the new item at the tail and then evicts that same item: its own
  \<^verbatim>\<open>onError\<close> (when it has one) is called with the overflow notice, the item returned is
  not in the queue, and the queue holds exactly the items it held before.
\<close>

theorem enqueue_full_tail_drops_new_item:
  assumes "length (queue s) = maxSize s"
    and "\<forall>q\<in>set (queue s). priorityOrder (priority q) \<le> priorityOrder prio"
    and "\<forall>q\<in>set (queue s). oid q < allocated s"
    and "enqueue cmd prio mr onC onE now rnd s = (item, s')"
  shows "insertByPriority item (queue s) = queue s @ [item]
         \<and> last (insertByPriority item (queue s)) = item
         \<and> errorCalls s' =
             errorCalls s
             @ (case onE of None \<Rightarrow> [] | Some h \<Rightarrow> [(h, ''Queue overflow: command dropped'')])
         \<and> item \<notin> set (queue s')
         \<and> queue s' = queue s"
proof -
  from assms(4) have i: "item = fst (enqueue cmd prio mr onC onE now rnd s)"
    and s': "s' = snd (enqueue cmd prio mr onC onE now rnd s)" by simp_all
  note t = enqueue_full_tail [OF assms(1) assms(2), of cmd mr onC onE now rnd]
  have "oid item = allocated s" by (simp add: i enqueue_item_sel)
  with assms(3) have "item \<notin> set (queue s)" by auto
  with t show ?thesis by (cases onE) (simp_all add: i s' overflowNotice_def)
qed

theorem enqueue_full_tail_drops_new_item_witness:
  "length (queue fullLowQueue) = maxSize fullLowQueue
   \<and> list_all (\<lambda>q. priorityOrder (priority q) \<le> priorityOrder Low) (queue fullLowQueue)
   \<and> list_all (\<lambda>q. oid q < allocated fullLowQueue) (queue fullLowQueue)
   \<and> errorCalls (snd (enqueue [(''action'', JStr ''lock'')] Low 3 None (Some 4) 1700000000500 ''p0q1r2'' fullLowQueue))
       = [(4, ''Queue overflow: command dropped'')]
   \<and> fst (enqueue [(''action'', JStr ''lock'')] Low 3 None (Some 4) 1700000000500 ''p0q1r2'' fullLowQueue)
       \<notin> set (queue (snd (enqueue [(''action'', JStr ''lock'')] Low 3 None (Some 4) 1700000000500 ''p0q1r2'' fullLowQueue)))
   \<and> queue (snd (enqueue [(''action'', JStr ''lock'')] Low 3 None (Some 4) 1700000000500 ''p0q1r2'' fullLowQueue))
       = queue fullLowQueue"
proof -
  have h1: "length (queue fullLowQueue) = maxSize fullLowQueue"
    by (simp add: fullLowQueue_facts)
  have h2: "\<forall>q\<in>set (queue fullLowQueue). priorityOrder (priority q) \<le> priorityOrder Low"
    by (simp add: fullLowQueue_facts)
  have h3: "\<forall>q\<in>set (queue fullLowQueue). oid q < allocated fullLowQueue"
    using fullLowQueue_facts(5) by (simp add: queueInv_def list_all_iff)
  have h4: "enqueue [(''action'', JStr ''lock'')] Low 3 None (Some 4) 1700000000500 ''p0q1r2'' fullLowQueue
      = (fst (enqueue [(''action'', JStr ''lock'')] Low 3 None (Some 4) 1700000000500 ''p0q1r2'' fullLowQueue),
         snd (enqueue [(''action'', JStr ''lock'')] Low 3 None (Some 4) 1700000000500 ''p0q1r2'' fullLowQueue))"
    by simp
  note r = enqueue_full_tail_drops_new_item [OF h1 h2 h3 h4]
  from r have "errorCalls (snd (enqueue [(''action'', JStr ''lock'')] Low 3 None (Some 4) 1700000000500 ''p0q1r2'' fullLowQueue))
       = [(4, ''Queue overflow: command dropped'')]"
    by (simp add: fullLowQueue_facts)
  with r h1 h2 h3 show ?thesis unfolding list_all_iff by blast
qed

text \<open>
  Claim C1, as the code has it. On a queue that holds its capacity, \<^verbatim>\<open>enqueue\<close> first
  inserts the new item at its priority position and then evicts exactly one item, the tail
  of the queue after the insertion: no remaining item ranks below it, it is the new item
  itself when no queued item ranks below the new one and the previous tail otherwise, its
  \<^verbatim>\<open>onError\<close> (when it has one) is called with the overflow notice, and the queue holds
  exactly its capacity afterwards.
\<close>

theorem enqueue_full_evicts_tail_after_insert:
  assumes "queueInv s"
    and "length (queue s) = maxSize s"
    and "enqueue cmd prio mr onC onE now rnd s = (item, s')"
  shows "insertByPriority item (queue s) = queue s' @ [overflowVictim item s]
         \<and> list_all (\<lambda>q. priorityOrder (priority q) \<le> priorityOrder (priority (overflowVictim item s)))
             (queue s')
         \<and> (overflowVictim item s = item
              \<longleftrightarrow> list_all (\<lambda>q. priorityOrder (priority q) \<le> priorityOrder prio) (queue s))
         \<and> (overflowVictim item s \<noteq> item \<longrightarrow> overflowVictim item s = last (queue s))
         \<and> errorCalls s' =
             errorCalls s
             @ (case onError (overflowVictim item s) of
                  None \<Rightarrow> []
                | Some h \<Rightarrow> [(h, ''Queue overflow: command dropped'')])
         \<and> length (queue s') = maxSize s"
proof -
  from assms(3) have i: "item = fst (enqueue cmd prio mr onC onE now rnd s)"
    and s': "s' = snd (enqueue cmd prio mr onC onE now rnd s)" by simp_all
  let ?q1 = "insertByPriority item (queue s)"
  have len: "length ?q1 = Suc (length (queue s))" by (rule length_insertByPriority)
  have ne: "?q1 \<noteq> []" by (rule insertByPriority_not_Nil)
  have q': "queue s' = butlast ?q1"
    using assms(2) len by (simp add: s' i enqueue_queue Let_def)
  have fresh: "\<forall>x\<in>set (queue s). oid x < oid item"
    using assms(1) by (simp add: queueInv_def list_all_iff i enqueue_item_sel)
  from assms(1) have "sorted_wrt servedBefore (queue s)" by (simp add: queueInv_def)
  from sorted_insertByPriority [OF this fresh] have srt: "sorted_wrt servedBefore ?q1" .
  have c1: "?q1 = queue s' @ [overflowVictim item s]"
    using ne by (simp add: q' overflowVictim_def)
  have c2: "list_all (\<lambda>q. priorityOrder (priority q) \<le> priorityOrder (priority (overflowVictim item s)))
             (queue s')"
    unfolding list_all_iff q' overflowVictim_def
    using sorted_wrt_last [OF srt] servedBefore_order by blast
  have prio: "priority item = prio" by (simp add: i enqueue_item_sel)
  have c3: "overflowVictim item s = item
              \<longleftrightarrow> list_all (\<lambda>q. priorityOrder (priority q) \<le> priorityOrder prio) (queue s)"
    and c4: "overflowVictim item s \<noteq> item \<longrightarrow> overflowVictim item s = last (queue s)"
  proof -
    show "overflowVictim item s = item
              \<longleftrightarrow> list_all (\<lambda>q. priorityOrder (priority q) \<le> priorityOrder prio) (queue s)"
    proof (cases "\<forall>q\<in>set (queue s). priorityOrder (priority q) \<le> priorityOrder (priority item)")
      case True
      from insertByPriority_tail [OF True] True show ?thesis
        by (simp add: overflowVictim_def list_all_iff prio)
    next
      case False
      then have ex: "\<exists>x\<in>set (queue s). priorityOrder (priority x) > priorityOrder (priority item)"
        by (auto simp add: not_le)
      from insertByPriority_not_tail [OF ex]
      have "queue s \<noteq> []" and "last ?q1 = last (queue s)" by simp_all
      moreover from this fresh have "last (queue s) \<noteq> item"
        using last_in_set [of "queue s"] by auto
      ultimately show ?thesis using False
        by (simp add: overflowVictim_def list_all_iff prio)
    qed
    show "overflowVictim item s \<noteq> item \<longrightarrow> overflowVictim item s = last (queue s)"
    proof (cases "\<forall>q\<in>set (queue s). priorityOrder (priority q) \<le> priorityOrder (priority item)")
      case True
      from insertByPriority_tail [OF True] show ?thesis
        by (simp add: overflowVictim_def)
    next
      case False
      then have ex: "\<exists>x\<in>set (queue s). priorityOrder (priority x) > priorityOrder (priority item)"
        by (auto simp add: not_le)
      from insertByPriority_not_tail [OF ex] show ?thesis
        by (simp add: overflowVictim_def)
    qed
  qed
  have c5: "errorCalls s' =
             errorCalls s
             @ (case onError (overflowVictim item s) of
                  None \<Rightarrow> []
                | Some h \<Rightarrow> [(h, ''Queue overflow: command dropped'')])"
    using assms(2) len
    by (simp add: s' enqueue_errorCalls Let_def i [symmetric] overflowVictim_def
          overflowNotice_def split: option.splits)
  have c6: "length (queue s') = maxSize s"
    using assms(2) len by (simp add: q')
  from c1 c2 c3 c4 c5 c6 show ?thesis by blast
qed

lemma fullLowQueue_last: "oid (last (queue fullLowQueue)) = 99"
proof -
  have srt: "sorted_wrt servedBefore (queue fullLowQueue)"
    and lt: "\<forall>q\<in>set (queue fullLowQueue). oid q < 100"
    using fullLowQueue_facts(5) by (simp_all add: queueInv_def list_all_iff fullLowQueue_facts)
  have low: "\<forall>q\<in>set (queue fullLowQueue). priority q = Low" by (rule fullLowQueue_facts)
  have len: "length (queue fullLowQueue) = 100" by (rule fullLowQueue_facts)
  have "sorted_wrt (<) (map oid (queue fullLowQueue))"
    unfolding sorted_wrt_map
    by (rule sorted_wrt_mono_rel [OF _ srt]) (use low in \<open>auto simp add: servedBefore_def\<close>)
  then have mono: "\<And>i. i < 100 \<Longrightarrow> i \<le> oid (queue fullLowQueue ! i)"
  proof -
    fix i :: nat
    assume "i < 100"
    then show "i \<le> oid (queue fullLowQueue ! i)"
    proof (induction i)
      case 0
      show ?case by simp
    next
      case (Suc i)
      then have "i \<le> oid (queue fullLowQueue ! i)" by simp
      moreover have "oid (queue fullLowQueue ! i) < oid (queue fullLowQueue ! Suc i)"
        using \<open>sorted_wrt (<) (map oid (queue fullLowQueue))\<close> Suc.prems len
        by (simp add: sorted_wrt_iff_nth_less)
      ultimately show ?case by simp
    qed
  qed
  have ne: "queue fullLowQueue \<noteq> []" using len by auto
  have "last (queue fullLowQueue) = queue fullLowQueue ! 99"
    using len by (simp add: last_conv_nth ne)
  moreover have "99 \<le> oid (queue fullLowQueue ! 99)" using mono [of 99] by simp
  moreover have "oid (queue fullLowQueue ! 99) < 100" using lt len by simp
  ultimately show ?thesis by simp
qed

theorem enqueue_full_evicts_tail_after_insert_witness:
  "queueInv fullLowQueue
   \<and> length (queue fullLowQueue) = maxSize fullLowQueue
   \<and> oid (overflowVictim
            (fst (enqueue [(''action'', JStr ''lock'')] Critical 3 None None 1700000000900 ''s3t4u5'' fullLowQueue))
            fullLowQueue) = 99
   \<and> length (queue (snd (enqueue [(''action'', JStr ''lock'')] Critical 3 None None 1700000000900 ''s3t4u5'' fullLowQueue)))
       = 100
   \<and> fst (enqueue [(''action'', JStr ''lock'')] Critical 3 None None 1700000000900 ''s3t4u5'' fullLowQueue)
       \<in> set (queue (snd (enqueue [(''action'', JStr ''lock'')] Critical 3 None None 1700000000900 ''s3t4u5'' fullLowQueue)))"
proof -
  let ?e = "enqueue [(''action'', JStr ''lock'')] Critical 3 None None 1700000000900 ''s3t4u5'' fullLowQueue"
  have h1: "queueInv fullLowQueue" by (rule fullLowQueue_facts)
  have h2: "length (queue fullLowQueue) = maxSize fullLowQueue" by (simp add: fullLowQueue_facts)
  have h3: "?e = (fst ?e, snd ?e)" by simp
  note r = enqueue_full_evicts_tail_after_insert [OF h1 h2 h3]
  have ne: "queue fullLowQueue \<noteq> []" using fullLowQueue_facts(1) by auto
  have "\<not> list_all (\<lambda>q. priorityOrder (priority q) \<le> priorityOrder Critical) (queue fullLowQueue)"
    using fullLowQueue_facts(6) ne
    by (cases "queue fullLowQueue") (simp_all add: priorityOrder_def)
  with r have v: "overflowVictim (fst ?e) fullLowQueue = last (queue fullLowQueue)"
    and nv: "overflowVictim (fst ?e) fullLowQueue \<noteq> fst ?e" by blast+
  have "fst ?e \<in> set (insertByPriority (fst ?e) (queue fullLowQueue))"
    by (simp add: set_insertByPriority)
  also from r have "insertByPriority (fst ?e) (queue fullLowQueue)
      = queue (snd ?e) @ [overflowVictim (fst ?e) fullLowQueue]" by blast
  finally have mem: "fst ?e \<in> set (queue (snd ?e))"
    using nv by auto
  from r have "length (queue (snd ?e)) = 100" by (simp add: fullLowQueue_facts)
  with h1 h2 v mem show ?thesis by (simp add: fullLowQueue_last)
qed

text \<open>
  The claim as written fails: on a full queue of \<^verbatim>\<open>low\<close> commands a new \<^verbatim>\<open>low\<close> command is
  itself the one dropped. Had the eviction come before the insertion, the new item would be
  in the queue and the previous tail gone.
\<close>

theorem enqueue_evicts_before_insert_counterexample:
  "fst (enqueue [(''action'', JStr ''mute'')] Low 3 None (Some 7) 1700000000700 ''v6w7x8'' fullLowQueue)
     \<notin> set (queue (snd (enqueue [(''action'', JStr ''mute'')] Low 3 None (Some 7) 1700000000700 ''v6w7x8'' fullLowQueue)))
   \<and> last (queue (snd (enqueue [(''action'', JStr ''mute'')] Low 3 None (Some 7) 1700000000700 ''v6w7x8'' fullLowQueue)))
       = last (queue fullLowQueue)
   \<and> errorCalls (snd (enqueue [(''action'', JStr ''mute'')] Low 3 None (Some 7) 1700000000700 ''v6w7x8'' fullLowQueue))
       = [(7, ''Queue overflow: command dropped'')]"
proof -
  let ?e = "enqueue [(''action'', JStr ''mute'')] Low 3 None (Some 7) 1700000000700 ''v6w7x8'' fullLowQueue"
  have h1: "length (queue fullLowQueue) = maxSize fullLowQueue" by (simp add: fullLowQueue_facts)
  have h2: "\<forall>q\<in>set (queue fullLowQueue). priorityOrder (priority q) \<le> priorityOrder Low"
    by (simp add: fullLowQueue_facts)
  note t = enqueue_full_tail [OF h1 h2, of "[(''action'', JStr ''mute'')]" 3 None "Some 7" 1700000000700 "''v6w7x8''"]
  have "oid (fst ?e) = 100" by (simp add: enqueue_item_sel fullLowQueue_facts)
  moreover have "\<forall>q\<in>set (queue fullLowQueue). oid q < 100"
    using fullLowQueue_facts(5) by (simp add: queueInv_def list_all_iff fullLowQueue_facts)
  ultimately have "fst ?e \<notin> set (queue fullLowQueue)" by auto
  with t show ?thesis by (simp add: fullLowQueue_facts overflowNotice_def)
qed

lemma byPriority_fold_sum:
  assumes step: "\<And>bp q. f bp q = bp(priority q := bp (priority q) + 1)"
  shows "foldl f bp0 xs Critical + foldl f bp0 xs High + foldl f bp0 xs Normal + foldl f bp0 xs Low
         = bp0 Critical + bp0 High + bp0 Normal + bp0 Low + length xs"
proof (induction xs arbitrary: bp0)
  case Nil
  show ?case by simp
next
  case (Cons x xs)
  have "f bp0 x Critical + f bp0 x High + f bp0 x Normal + f bp0 x Low
        = bp0 Critical + bp0 High + bp0 Normal + bp0 Low + 1"
    by (cases "priority x") (simp_all add: step)
  with Cons.IH [of "f bp0 x"] show ?case by simp
qed

lemma getStatus_byPriority_sum:
  "byPriority (getStatus s) Critical + byPriority (getStatus s) High
   + byPriority (getStatus s) Normal + byPriority (getStatus s) Low = pending (getStatus s)"
proof -
  have "byPriority (getStatus s) =
          foldl (\<lambda>bp q. bp(priority q := bp (priority q) + 1)) (\<lambda>_. 0)
            (filter (\<lambda>q. status q = Queued) (queue s))"
    and "pending (getStatus s) = length (filter (\<lambda>q. status q = Queued) (queue s))"
    by (simp_all add: getStatus_def)
  then show ?thesis
    using byPriority_fold_sum
      [of "\<lambda>bp q. bp(priority q := bp (priority q) + 1)" "\<lambda>_. 0"
          "filter (\<lambda>q. status q = Queued) (queue s)"]
    by simp
qed

lemma flushLoop_tried:
  "snd (snd (snd (snd (flushLoop sender qs)))) =
     map (\<lambda>q. q\<lparr>status := Executing, attempts := attempts q + 1\<rparr>)
       (filter (\<lambda>q. status q = Queued) qs)"
  by (induction qs) (auto simp add: Let_def split: prod.splits)

lemma flush_tried:
  "bridgeSender s = Some sender \<Longrightarrow> \<not> processing s
    \<Longrightarrow> snd (snd (flush s)) =
         map (\<lambda>q. q\<lparr>status := Executing, attempts := attempts q + 1\<rparr>)
           (filter (\<lambda>q. status q = Queued) (queue s))"
  using flushLoop_tried [of sender "queue s"]
  by (auto simp add: flush_def split: prod.splits)

lemma processing_enqueueAll: "\<not> processing (enqueueAll cs)"
  by (induction cs rule: rev_induct)
    (simp_all add: enqueueAll_Nil enqueueAll_snoc newCommandQueue_def enqueueCall_def enqueue_fields)

text \<open>
  Claim C3. After any sequence of \<^verbatim>\<open>enqueue\<close> calls on a new queue, the per-priority counts
  of \<^verbatim>\<open>getStatus()\<close> add up to the pending count, and \<^verbatim>\<open>flush\<close> hands the pending items to
  the sender, all of them, in an order where an earlier item never has a lower tier than a
  later one and, within one tier, was enqueued first.
\<close>

theorem enqueue_sequence_status_and_flush_order:
  assumes "flush (setBridgeSender sender (enqueueAll cs)) = (counts, s', tried)"
  shows "byPriority (getStatus (enqueueAll cs)) Critical + byPriority (getStatus (enqueueAll cs)) High
         + byPriority (getStatus (enqueueAll cs)) Normal + byPriority (getStatus (enqueueAll cs)) Low
         = pending (getStatus (enqueueAll cs))
         \<and> length tried = pending (getStatus (enqueueAll cs))
         \<and> map oid tried = map oid (queue (enqueueAll cs))
         \<and> (\<forall>i j. i < j \<and> j < length tried \<longrightarrow>
               priorityOrder (priority (tried ! i)) \<le> priorityOrder (priority (tried ! j))
               \<and> (priority (tried ! i) = priority (tried ! j) \<longrightarrow> oid (tried ! i) < oid (tried ! j)))"
proof -
  let ?q = "queue (enqueueAll cs)"
  let ?f = "\<lambda>q. q\<lparr>status := Executing, attempts := attempts q + (1::int)\<rparr>"
  have allq: "filter (\<lambda>q. status q = Queued) ?q = ?q"
    using all_queued_enqueueAll [of cs] by (simp add: filter_id_conv)
  from assms have "tried = snd (snd (flush (setBridgeSender sender (enqueueAll cs))))" by simp
  also have "\<dots> = map ?f (filter (\<lambda>q. status q = Queued) ?q)"
    using flush_tried [of "setBridgeSender sender (enqueueAll cs)" sender]
    by (simp add: setBridgeSender_def processing_enqueueAll)
  finally have tr: "tried = map ?f ?q" by (simp add: allq)
  have srt: "sorted_wrt servedBefore ?q"
    using queueInv_enqueueAll [of cs] by (simp add: queueInv_def)
  have "sorted_wrt servedBefore tried"
    unfolding tr sorted_wrt_map
    by (rule sorted_wrt_mono_rel [OF _ srt]) (simp add: servedBefore_def)
  then have ord: "\<forall>i j. i < j \<and> j < length tried \<longrightarrow> servedBefore (tried ! i) (tried ! j)"
    by (simp add: sorted_wrt_iff_nth_less)
  have c4: "\<forall>i j. i < j \<and> j < length tried \<longrightarrow>
               priorityOrder (priority (tried ! i)) \<le> priorityOrder (priority (tried ! j))
               \<and> (priority (tried ! i) = priority (tried ! j) \<longrightarrow> oid (tried ! i) < oid (tried ! j))"
  proof (intro allI impI)
    fix i j assume "i < j \<and> j < length tried"
    with ord have "servedBefore (tried ! i) (tried ! j)" by blast
    then show "priorityOrder (priority (tried ! i)) \<le> priorityOrder (priority (tried ! j))
               \<and> (priority (tried ! i) = priority (tried ! j) \<longrightarrow> oid (tried ! i) < oid (tried ! j))"
      by (auto simp add: servedBefore_def)
  qed
  have c2: "length tried = pending (getStatus (enqueueAll cs))"
    by (simp add: tr getStatus_def allq)
  have c3: "map oid tried = map oid ?q" by (simp add: tr)
  from getStatus_byPriority_sum [of "enqueueAll cs"] c2 c3 c4 show ?thesis by blast
qed

lemma enqueueAll_testCalls:
  "map (\<lambda>q. (oid q, priority q)) (queue (enqueueAll testCalls)) = [(1, Critical), (0, Normal), (2, Low)]"
  by (simp add: testCalls_def enqueueAll_def enqueueCall_def enqueue_def newCommandQueue_def
        Let_def insertByPriority_def findIndex_def priorityOrder_def)

theorem enqueue_sequence_status_and_flush_order_witness:
  "map oid (snd (snd (flush (setBridgeSender (\<lambda>c. Delivered) (enqueueAll testCalls))))) = [1, 0, 2]
   \<and> length (snd (snd (flush (setBridgeSender (\<lambda>c. Delivered) (enqueueAll testCalls))))) = 3
   \<and> pending (getStatus (enqueueAll testCalls)) = 3"
proof -
  let ?r = "flush (setBridgeSender (\<lambda>c. Delivered) (enqueueAll testCalls))"
  have h: "?r = (fst ?r, fst (snd ?r), snd (snd ?r))" by simp
  note t = enqueue_sequence_status_and_flush_order [OF h]
  have "map oid (queue (enqueueAll testCalls)) = map fst [(1::nat, Critical), (0, Normal), (2, Low)]"
    unfolding enqueueAll_testCalls [symmetric] by (simp add: comp_def)
  then have m: "map oid (queue (enqueueAll testCalls)) = [1, 0, 2]" by simp
  from t have "map oid (snd (snd ?r)) = map oid (queue (enqueueAll testCalls))" by blast
  with m have o: "map oid (snd (snd ?r)) = [1, 0, 2]" by simp
  then have "length (map oid (snd (snd ?r))) = 3" by simp
  then have l: "length (snd (snd ?r)) = 3" by simp
  from t l have "pending (getStatus (enqueueAll testCalls)) = 3" by simp
  with o l show ?thesis by blast
qed

section \<open>Alert rules\<close>

lemma checkRulesFrom_length: "length (fst (checkRulesFrom i now snap rules)) = length rules"
  by (induction rules arbitrary: i) (simp_all add: split_beta split: option.splits)

lemma checkRulesFrom_indices:
  "c \<in> set (snd (checkRulesFrom i now snap rules)) \<Longrightarrow> i \<le> fst c"
proof (induction rules arbitrary: i)
  case Nil
  then show ?case by simp
next
  case (Cons r rs)
  have "c \<in> set (snd (checkRulesFrom (Suc i) now snap rs)) \<Longrightarrow> i \<le> fst c"
    using Cons.IH [of "Suc i"] by simp
  with Cons.prems show ?case
    by (auto simp add: split_beta split: option.splits if_splits)
qed

lemma callsFor_later: "callsFor i (snd (checkRulesFrom (Suc i) now snap rules)) = []"
proof -
  have "\<forall>c\<in>set (snd (checkRulesFrom (Suc i) now snap rules)). fst c \<noteq> i"
    using checkRulesFrom_indices [of _ "Suc i" now snap rules] by fastforce
  then show ?thesis by (simp add: callsFor_def filter_empty_conv)
qed

lemma callsFor_Cons:
  "callsFor i (c # cs) = (if fst c = i then snd c # callsFor i cs else callsFor i cs)"
  by (simp add: callsFor_def)

lemma callsFor_append: "callsFor i (xs @ ys) = callsFor i xs @ callsFor i ys"
  by (simp add: callsFor_def)

text \<open>What the loop does with the rule at position \<open>k\<close>, when it fires and when it does not.\<close>

lemma checkRulesFrom_fires:
  assumes "k < length rules"
    and "rule_enabled (rules ! k)"
    and "\<not> now - lastTriggered (rules ! k) < cooldownMs (rules ! k)"
    and "metricValue (rule_metric (rules ! k)) snap = Some v"
    and "passes (rules ! k) v"
  shows "fst (checkRulesFrom i now snap rules) ! k = (rules ! k)\<lparr>lastTriggered := now\<rparr>
         \<and> callsFor (i + k) (snd (checkRulesFrom i now snap rules))
             = [((rules ! k)\<lparr>lastTriggered := now\<rparr>, v)]"
  using assms
proof (induction rules arbitrary: i k)
  case Nil
  then show ?case by simp
next
  case (Cons r rs)
  show ?case
  proof (cases k)
    case 0
    with Cons.prems callsFor_later [of i now snap rs] show ?thesis
      by (simp add: callsFor_Cons split_beta)
  next
    case (Suc k')
    with Cons.prems have p: "k' < length rs" "rule_enabled (rs ! k')"
      "\<not> now - lastTriggered (rs ! k') < cooldownMs (rs ! k')"
      "metricValue (rule_metric (rs ! k')) snap = Some v" "passes (rs ! k') v"
      by simp_all
    from Cons.IH [OF p, of "Suc i"] Suc show ?thesis
      by (simp add: callsFor_Cons split_beta split: option.splits)
  qed
qed

lemma checkRulesFrom_silent:
  assumes "k < length rules"
    and "now - lastTriggered (rules ! k) < cooldownMs (rules ! k)"
  shows "fst (checkRulesFrom i now snap rules) ! k = rules ! k
         \<and> callsFor (i + k) (snd (checkRulesFrom i now snap rules)) = []"
  using assms
proof (induction rules arbitrary: i k)
  case Nil
  then show ?case by simp
next
  case (Cons r rs)
  show ?case
  proof (cases k)
    case 0
    with Cons.prems callsFor_later [of i now snap rs] show ?thesis
      by (simp add: callsFor_Cons split_beta)
  next
    case (Suc k')
    with Cons.prems have p: "k' < length rs"
      "now - lastTriggered (rs ! k') < cooldownMs (rs ! k')"
      by simp_all
    from Cons.IH [OF p, of "Suc i"] Suc show ?thesis
      by (simp add: callsFor_Cons split_beta split: option.splits)
  qed
qed

lemma processSnapshot_alerts:
  assumes "alertCallback s = Some cb"
  shows "alertRules (processSnapshot now snap s) = fst (checkRulesFrom 0 now snap (alertRules s))"
    and "alertCalls (processSnapshot now snap s) =
           alertCalls s @ snd (checkRulesFrom 0 now snap (alertRules s))"
    and "alertCallback (processSnapshot now snap s) = Some cb"
  using assms by (simp_all add: processSnapshot_def checkAlerts_def split_beta)

lemma processSnapshot_fires:
  assumes "alertCallback s = Some cb" and "i < length (alertRules s)"
    and "rule_enabled (alertRules s ! i)"
    and "cooldownMs (alertRules s ! i) \<le> now - lastTriggered (alertRules s ! i)"
    and "metricValue (rule_metric (alertRules s ! i)) snap = Some v"
    and "passes (alertRules s ! i) v"
  shows "alertRules (processSnapshot now snap s) ! i = (alertRules s ! i)\<lparr>lastTriggered := now\<rparr>"
    and "newAlertCalls i s (processSnapshot now snap s) = [((alertRules s ! i)\<lparr>lastTriggered := now\<rparr>, v)]"
proof -
  from assms(4) have c: "\<not> now - lastTriggered (alertRules s ! i) < cooldownMs (alertRules s ! i)"
    by simp
  note f = checkRulesFrom_fires [OF assms(2) assms(3) c assms(5) assms(6), of 0]
  from f show "alertRules (processSnapshot now snap s) ! i = (alertRules s ! i)\<lparr>lastTriggered := now\<rparr>"
    by (simp add: processSnapshot_alerts [OF assms(1)])
  from f show "newAlertCalls i s (processSnapshot now snap s) = [((alertRules s ! i)\<lparr>lastTriggered := now\<rparr>, v)]"
    by (simp add: newAlertCalls_def processSnapshot_alerts [OF assms(1)])
qed

lemma processSnapshot_silent:
  assumes "alertCallback s = Some cb" and "i < length (alertRules s)"
    and "now - lastTriggered (alertRules s ! i) < cooldownMs (alertRules s ! i)"
  shows "alertRules (processSnapshot now snap s) ! i = alertRules s ! i"
    and "newAlertCalls i s (processSnapshot now snap s) = []"
proof -
  note f = checkRulesFrom_silent [OF assms(2) assms(3), of 0 snap]
  from f show "alertRules (processSnapshot now snap s) ! i = alertRules s ! i"
    by (simp add: processSnapshot_alerts [OF assms(1)])
  from f show "newAlertCalls i s (processSnapshot now snap s) = []"
    by (simp add: newAlertCalls_def processSnapshot_alerts [OF assms(1)])
qed

lemma processSnapshot_length:
  "alertCallback s = Some cb \<Longrightarrow> length (alertRules (processSnapshot now snap s)) = length (alertRules s)"
  by (simp add: processSnapshot_alerts checkRulesFrom_length)

lemma three_snapshots:
  assumes cb: "alertCallback s = Some cb" and i: "i < length (alertRules s)"
    and r: "r = alertRules s ! i"
    and en: "rule_enabled r"
    and v1: "metricValue (rule_metric r) snap1 = Some v1" "passes r v1"
    and v2: "metricValue (rule_metric r) snap2 = Some v2" "passes r v2"
    and v3: "metricValue (rule_metric r) snap3 = Some v3" "passes r v3"
    and t1: "cooldownMs r \<le> t1 - lastTriggered r"
    and t2: "t2 - t1 < cooldownMs r"
    and t3: "cooldownMs r \<le> t3 - t1"
    and s1: "s1 = processSnapshot t1 snap1 s"
    and s2: "s2 = processSnapshot t2 snap2 s1"
    and s3: "s3 = processSnapshot t3 snap3 s2"
  shows "alertRules s1 ! i = r\<lparr>lastTriggered := t1\<rparr>"
    and "newAlertCalls i s s1 = [(r\<lparr>lastTriggered := t1\<rparr>, v1)]"
    and "alertRules s2 ! i = r\<lparr>lastTriggered := t1\<rparr>"
    and "newAlertCalls i s1 s2 = []"
    and "alertRules s3 ! i = r\<lparr>lastTriggered := t3\<rparr>"
    and "newAlertCalls i s2 s3 = [(r\<lparr>lastTriggered := t3\<rparr>, v3)]"
proof -
  have cb1: "alertCallback s1 = Some cb" and i1: "i < length (alertRules s1)"
    using cb i processSnapshot_length [OF cb, of t1 snap1]
    by (simp_all add: s1 processSnapshot_alerts)
  have cb2: "alertCallback s2 = Some cb" and i2: "i < length (alertRules s2)"
    using cb1 i1 processSnapshot_length [OF cb1, of t2 snap2]
    by (simp_all add: s2 processSnapshot_alerts)
  show a1: "alertRules s1 ! i = r\<lparr>lastTriggered := t1\<rparr>"
    and "newAlertCalls i s s1 = [(r\<lparr>lastTriggered := t1\<rparr>, v1)]"
    using processSnapshot_fires [OF cb i, of t1 snap1 v1] en v1 t1
    by (simp_all add: r s1)
  show a2: "alertRules s2 ! i = r\<lparr>lastTriggered := t1\<rparr>"
    and "newAlertCalls i s1 s2 = []"
    using processSnapshot_silent [OF cb1 i1, of t2 snap2] t2
    by (simp_all add: a1 s2)
  show "alertRules s3 ! i = r\<lparr>lastTriggered := t3\<rparr>"
    and "newAlertCalls i s2 s3 = [(r\<lparr>lastTriggered := t3\<rparr>, v3)]"
    using processSnapshot_fires [OF cb2 i2, of t3 snap3 v3] en v3 t3
    by (simp_all add: a2 s3 passes_def)
qed

lemma default_rule_0: "alertRules (onAlert cb newSystemMonitor) ! 0 = cpuHigh"
  by (simp add: onAlert_def newSystemMonitor_def defaultAlerts_def cpuHigh_def)

lemma default_monitor:
  "alertCallback (onAlert cb newSystemMonitor) = Some cb"
  "0 < length (alertRules (onAlert cb newSystemMonitor))"
  by (simp_all add: onAlert_def newSystemMonitor_def defaultAlerts_def)

text \<open>
  Claim C4. With a callback registered, take an enabled rule and three snapshots whose metric
  value passes its threshold in its direction (\<open>passes\<close>: above is \<open>value > threshold\<close>, below
  is \<open>value < threshold\<close>). If at least \<open>cooldownMs\<close> has elapsed since \<open>lastTriggered\<close> when
  the first arrives, \<^verbatim>\<open>processSnapshot\<close> sets \<open>lastTriggered\<close> to now and calls the callback
  exactly once for the rule; a second snapshot within \<open>cooldownMs\<close> of that trigger makes no
  call for the rule; a third one after the cooldown makes exactly one again. In particular
  the default rule \<^verbatim>\<open>cpu_high\<close> fires on cpu 95, not on cpu 96 one second later, and again
  once 60 s have passed.
\<close>

theorem alert_fires_once_per_cooldown:
  "(alertCallback s = Some cb \<and> i < length (alertRules s) \<and> r = alertRules s ! i
     \<and> rule_enabled r
     \<and> metricValue (rule_metric r) snap1 = Some v1 \<and> passes r v1
     \<and> metricValue (rule_metric r) snap2 = Some v2 \<and> passes r v2
     \<and> metricValue (rule_metric r) snap3 = Some v3 \<and> passes r v3
     \<and> cooldownMs r \<le> t1 - lastTriggered r \<and> t2 - t1 < cooldownMs r \<and> cooldownMs r \<le> t3 - t1
    \<longrightarrow> lastTriggered (alertRules (processSnapshot t1 snap1 s) ! i) = t1
        \<and> newAlertCalls i s (processSnapshot t1 snap1 s) = [(r\<lparr>lastTriggered := t1\<rparr>, v1)]
        \<and> newAlertCalls i (processSnapshot t1 snap1 s)
             (processSnapshot t2 snap2 (processSnapshot t1 snap1 s)) = []
        \<and> lastTriggered
             (alertRules (processSnapshot t3 snap3 (processSnapshot t2 snap2 (processSnapshot t1 snap1 s))) ! i)
             = t3
        \<and> newAlertCalls i (processSnapshot t2 snap2 (processSnapshot t1 snap1 s))
             (processSnapshot t3 snap3 (processSnapshot t2 snap2 (processSnapshot t1 snap1 s)))
             = [(r\<lparr>lastTriggered := t3\<rparr>, v3)])
   \<and> (60000 \<le> t \<and> cpu_percent a = 95 \<and> cpu_percent b = 96 \<and> cpu_percent c > 90 \<and> t + 60000 \<le> t'
    \<longrightarrow> newAlertCalls 0 (onAlert cb newSystemMonitor)
          (processSnapshot t a (onAlert cb newSystemMonitor))
          = [(cpuHigh\<lparr>lastTriggered := t\<rparr>, 95)]
        \<and> newAlertCalls 0 (processSnapshot t a (onAlert cb newSystemMonitor))
            (processSnapshot (t + 1000) b (processSnapshot t a (onAlert cb newSystemMonitor)))
            = []
        \<and> newAlertCalls 0
            (processSnapshot (t + 1000) b (processSnapshot t a (onAlert cb newSystemMonitor)))
            (processSnapshot t' c
              (processSnapshot (t + 1000) b (processSnapshot t a (onAlert cb newSystemMonitor))))
            = [(cpuHigh\<lparr>lastTriggered := t'\<rparr>, cpu_percent c)])"
proof (intro conjI impI)
  assume h: "alertCallback s = Some cb \<and> i < length (alertRules s) \<and> r = alertRules s ! i
     \<and> rule_enabled r
     \<and> metricValue (rule_metric r) snap1 = Some v1 \<and> passes r v1
     \<and> metricValue (rule_metric r) snap2 = Some v2 \<and> passes r v2
     \<and> metricValue (rule_metric r) snap3 = Some v3 \<and> passes r v3
     \<and> cooldownMs r \<le> t1 - lastTriggered r \<and> t2 - t1 < cooldownMs r \<and> cooldownMs r \<le> t3 - t1"
  then have g: "alertCallback s = Some cb" "i < length (alertRules s)" "r = alertRules s ! i"
    "rule_enabled r"
    "metricValue (rule_metric r) snap1 = Some v1" "passes r v1"
    "metricValue (rule_metric r) snap2 = Some v2" "passes r v2"
    "metricValue (rule_metric r) snap3 = Some v3" "passes r v3"
    "cooldownMs r \<le> t1 - lastTriggered r" "t2 - t1 < cooldownMs r" "cooldownMs r \<le> t3 - t1"
    by blast+
  note t = three_snapshots [OF g refl refl refl]
  from t(1) show "lastTriggered (alertRules (processSnapshot t1 snap1 s) ! i) = t1" by simp
  from t(2) show "newAlertCalls i s (processSnapshot t1 snap1 s) = [(r\<lparr>lastTriggered := t1\<rparr>, v1)]" .
  from t(4) show "newAlertCalls i (processSnapshot t1 snap1 s)
             (processSnapshot t2 snap2 (processSnapshot t1 snap1 s)) = []" .
  from t(5) show "lastTriggered
             (alertRules (processSnapshot t3 snap3 (processSnapshot t2 snap2 (processSnapshot t1 snap1 s))) ! i)
             = t3" by simp
  from t(6) show "newAlertCalls i (processSnapshot t2 snap2 (processSnapshot t1 snap1 s))
             (processSnapshot t3 snap3 (processSnapshot t2 snap2 (processSnapshot t1 snap1 s)))
             = [(r\<lparr>lastTriggered := t3\<rparr>, v3)]" .
next
  assume h: "60000 \<le> t \<and> cpu_percent a = 95 \<and> cpu_percent b = 96 \<and> cpu_percent c > 90 \<and> t + 60000 \<le> t'"
  let ?s = "onAlert cb newSystemMonitor"
  have p: "rule_enabled cpuHigh"
    "metricValue (rule_metric cpuHigh) a = Some 95" "passes cpuHigh 95"
    "metricValue (rule_metric cpuHigh) b = Some 96" "passes cpuHigh 96"
    "metricValue (rule_metric cpuHigh) c = Some (cpu_percent c)" "passes cpuHigh (cpu_percent c)"
    "cooldownMs cpuHigh \<le> t - lastTriggered cpuHigh" "(t + 1000) - t < cooldownMs cpuHigh"
    "cooldownMs cpuHigh \<le> t' - t"
    using h by (simp_all add: cpuHigh_def metricValue_def passes_def)
  note t = three_snapshots [OF default_monitor(1) default_monitor(2) default_rule_0 [symmetric] p refl refl refl,
      of cb]
  from t(2) show "newAlertCalls 0 ?s (processSnapshot t a ?s) = [(cpuHigh\<lparr>lastTriggered := t\<rparr>, 95)]" .
  from t(4) show "newAlertCalls 0 (processSnapshot t a ?s)
            (processSnapshot (t + 1000) b (processSnapshot t a ?s)) = []" .
  from t(6) show "newAlertCalls 0
            (processSnapshot (t + 1000) b (processSnapshot t a ?s))
            (processSnapshot t' c (processSnapshot (t + 1000) b (processSnapshot t a ?s)))
            = [(cpuHigh\<lparr>lastTriggered := t'\<rparr>, cpu_percent c)]" .
qed

theorem alert_fires_once_per_cooldown_witness:
  "newAlertCalls 0 (onAlert 1 newSystemMonitor)
     (processSnapshot 1700000000000 (cpuSnapshot 95) (onAlert 1 newSystemMonitor))
     = [(cpuHigh\<lparr>lastTriggered := 1700000000000\<rparr>, 95)]
   \<and> newAlertCalls 0 (processSnapshot 1700000000000 (cpuSnapshot 95) (onAlert 1 newSystemMonitor))
       (processSnapshot (1700000000000 + 1000) (cpuSnapshot 96)
         (processSnapshot 1700000000000 (cpuSnapshot 95) (onAlert 1 newSystemMonitor)))
       = []
   \<and> newAlertCalls 0
       (processSnapshot (1700000000000 + 1000) (cpuSnapshot 96)
         (processSnapshot 1700000000000 (cpuSnapshot 95) (onAlert 1 newSystemMonitor)))
       (processSnapshot 1700000060000 (cpuSnapshot 97)
         (processSnapshot (1700000000000 + 1000) (cpuSnapshot 96)
           (processSnapshot 1700000000000 (cpuSnapshot 95) (onAlert 1 newSystemMonitor))))
       = [(cpuHigh\<lparr>lastTriggered := 1700000060000\<rparr>, 97)]
   \<and> newAlertCalls 3 (onAlert 1 newSystemMonitor)
       (processSnapshot 1700000000000 (batterySnapshot 10) (onAlert 1 newSystemMonitor))
       = [((alertRules (onAlert 1 newSystemMonitor) ! 3)\<lparr>lastTriggered := 1700000000000\<rparr>, 10)]
   \<and> newAlertCalls 3
       (processSnapshot 1700000000000 (batterySnapshot 10) (onAlert 1 newSystemMonitor))
       (processSnapshot 1700000005000 (batterySnapshot 9)
         (processSnapshot 1700000000000 (batterySnapshot 10) (onAlert 1 newSystemMonitor)))
       = []"
proof -
  let ?s = "onAlert 1 newSystemMonitor"
  let ?r = "alertRules ?s ! 3"
  have r: "?r = \<lparr>rule_id = ''battery_low'', rule_metric = Battery, threshold = 15,
      rule_direction = Below, rule_message = ''Battery critically low: {value}%'',
      cooldownMs = 120000, lastTriggered = 0, rule_enabled = True\<rparr>"
    by (simp add: onAlert_def newSystemMonitor_def defaultAlerts_def)
  have h1: "alertCallback ?s = Some 1 \<and> 3 < length (alertRules ?s) \<and> ?r = alertRules ?s ! 3
     \<and> rule_enabled ?r
     \<and> metricValue (rule_metric ?r) (batterySnapshot 10) = Some 10 \<and> passes ?r 10
     \<and> metricValue (rule_metric ?r) (batterySnapshot 9) = Some 9 \<and> passes ?r 9
     \<and> metricValue (rule_metric ?r) (batterySnapshot 8) = Some 8 \<and> passes ?r 8
     \<and> cooldownMs ?r \<le> 1700000000000 - lastTriggered ?r
     \<and> 1700000005000 - 1700000000000 < cooldownMs ?r
     \<and> cooldownMs ?r \<le> 1700000120000 - 1700000000000"
    unfolding r
    by (simp add: onAlert_def newSystemMonitor_def defaultAlerts_def metricValue_def passes_def
          batterySnapshot_def)
  have h2: "(60000::int) \<le> 1700000000000 \<and> cpu_percent (cpuSnapshot 95) = 95
     \<and> cpu_percent (cpuSnapshot 96) = 96 \<and> cpu_percent (cpuSnapshot 97) > 90
     \<and> (1700000000000::int) + 60000 \<le> 1700000060000"
    by (simp add: cpuSnapshot_def)
  have c: "cpu_percent (cpuSnapshot 97) = 97" by (simp add: cpuSnapshot_def)
  note t = alert_fires_once_per_cooldown
    [of ?s 1 3 ?r "batterySnapshot 10" 10 "batterySnapshot 9" 9 "batterySnapshot 8" 8
        1700000000000 1700000005000 1700000120000
        1700000000000 "cpuSnapshot 95" "cpuSnapshot 96" "cpuSnapshot 97" 1700000060000]
  from t h1 h2 show ?thesis unfolding c by blast
qed

section \<open>Credential rotation\<close>

lemma markFailed_valid:
  assumes "currentIndex s < length (keys s)"
  shows "markFailed t1 t2 s =
           Inr (s\<lparr>keys := (keys s)[currentIndex s :=
                  (keys s ! currentIndex s)
                    \<lparr>failureCount := failureCount (keys s ! currentIndex s) + 1,
                     lastFailure := Some t1,
                     cooldownUntil := t2 + (if 3 \<le> failureCount (keys s ! currentIndex s) + 1
                                            then 300000 else 60000)\<rparr>]\<rparr>)"
  using assms
  by (auto simp add: markFailed_def Let_def MAX_FAILURES_BEFORE_LONG_COOLDOWN_def
        LONG_COOLDOWN_MS_def COOLDOWN_MS_def)

lemma markFailedTimes_valid:
  assumes "currentIndex s < length (keys s)"
  shows "\<exists>s'. markFailedTimes ts s = Inr s'
           \<and> currentIndex s' = currentIndex s \<and> length (keys s') = length (keys s)
           \<and> failureCount (keys s' ! currentIndex s)
               = failureCount (keys s ! currentIndex s) + int (length ts)
           \<and> (ts \<noteq> [] \<longrightarrow>
                cooldownUntil (keys s' ! currentIndex s)
                  = snd (last ts)
                    + (if 3 \<le> failureCount (keys s ! currentIndex s) + int (length ts)
                       then 300000 else 60000))"
  using assms
proof (induction ts arbitrary: s)
  case Nil
  show ?case by simp
next
  case (Cons t ts)
  obtain t1 t2 where t: "t = (t1, t2)" by (cases t)
  define s1 where "s1 = s\<lparr>keys := (keys s)[currentIndex s :=
                  (keys s ! currentIndex s)
                    \<lparr>failureCount := failureCount (keys s ! currentIndex s) + 1,
                     lastFailure := Some t1,
                     cooldownUntil := t2 + (if 3 \<le> failureCount (keys s ! currentIndex s) + 1
                                            then 300000 else 60000)\<rparr>]\<rparr>"
  have m: "markFailed t1 t2 s = Inr s1"
    unfolding s1_def by (rule markFailed_valid [OF Cons.prems])
  have s1: "currentIndex s1 = currentIndex s" "length (keys s1) = length (keys s)"
    "failureCount (keys s1 ! currentIndex s) = failureCount (keys s ! currentIndex s) + 1"
    "cooldownUntil (keys s1 ! currentIndex s)
       = t2 + (if 3 \<le> failureCount (keys s ! currentIndex s) + 1 then 300000 else 60000)"
    using Cons.prems by (simp_all add: s1_def)
  have v: "currentIndex s1 < length (keys s1)" using Cons.prems by (simp add: s1)
  from Cons.IH [OF v] obtain s' where s': "markFailedTimes ts s1 = Inr s'"
    "currentIndex s' = currentIndex s1" "length (keys s') = length (keys s1)"
    "failureCount (keys s' ! currentIndex s1)
       = failureCount (keys s1 ! currentIndex s1) + int (length ts)"
    "ts \<noteq> [] \<longrightarrow>
       cooldownUntil (keys s' ! currentIndex s1)
         = snd (last ts)
           + (if 3 \<le> failureCount (keys s1 ! currentIndex s1) + int (length ts)
              then 300000 else 60000)"
    by blast
  have run: "markFailedTimes (t # ts) s = Inr s'" by (simp add: t m s'(1))
  have fc: "failureCount (keys s' ! currentIndex s)
      = failureCount (keys s ! currentIndex s) + int (length (t # ts))"
    using s'(4) by (simp add: s1)
  have cd: "cooldownUntil (keys s' ! currentIndex s)
      = snd (last (t # ts))
        + (if 3 \<le> failureCount (keys s ! currentIndex s) + int (length (t # ts))
           then 300000 else 60000)"
  proof (cases "ts = []")
    case True
    with s'(1) have "s' = s1" by simp
    with True show ?thesis by (simp add: t s1)
  next
    case False
    with s'(5) show ?thesis by (simp add: s1 add.assoc add.commute)
  qed
  from run fc cd s'(2) s'(3) show ?case by (simp add: s1)
qed

text \<open>
  Claim C8. After \<open>N\<close> consecutive \<^verbatim>\<open>markFailed()\<close> calls on the current credential, starting
  from \<open>failureCount = 0\<close>, with \<open>N\<close> at least the escalation threshold 3, the calls succeed
  and the cooldown the last call assigns (\<open>cooldownUntil\<close> minus its clock reading) is the
  long cooldown of 300000 ms, not the short one of 60000 ms.
\<close>

theorem markFailed_escalates_cooldown:
  assumes "currentIndex s < length (keys s)"
    and "failureCount (keys s ! currentIndex s) = 0"
    and "MAX_FAILURES_BEFORE_LONG_COOLDOWN \<le> int (length ts)"
  shows "\<exists>s'. markFailedTimes ts s = Inr s'
           \<and> failureCount (keys s' ! currentIndex s) = int (length ts)
           \<and> cooldownUntil (keys s' ! currentIndex s) - snd (last ts) = LONG_COOLDOWN_MS
           \<and> cooldownUntil (keys s' ! currentIndex s) - snd (last ts) \<noteq> COOLDOWN_MS
           \<and> LONG_COOLDOWN_MS = 300000 \<and> COOLDOWN_MS = 60000"
proof -
  from assms(3) have ne: "ts \<noteq> []" and n: "3 \<le> int (length ts)"
    by (auto simp add: MAX_FAILURES_BEFORE_LONG_COOLDOWN_def)
  from markFailedTimes_valid [OF assms(1), of ts] obtain s' where
    "markFailedTimes ts s = Inr s'"
    "failureCount (keys s' ! currentIndex s) = failureCount (keys s ! currentIndex s) + int (length ts)"
    "ts \<noteq> [] \<longrightarrow>
       cooldownUntil (keys s' ! currentIndex s)
         = snd (last ts)
           + (if 3 \<le> failureCount (keys s ! currentIndex s) + int (length ts)
              then 300000 else 60000)"
    by blast
  with ne n assms(2) show ?thesis
    by (simp add: LONG_COOLDOWN_MS_def COOLDOWN_MS_def)
qed

theorem markFailed_escalates_cooldown_witness:
  "\<exists>s'. markFailedTimes [(1700000000000, 1700000000001), (1700000002000, 1700000002000),
                          (1700000004000, 1700000004003)] threeKeys = Inr s'
         \<and> failureCount (keys s' ! 0) = 3
         \<and> cooldownUntil (keys s' ! 0) - 1700000004003 = 300000"
proof -
  have h1: "currentIndex threeKeys < length (keys threeKeys)" by (simp add: threeKeys_def)
  have h2: "failureCount (keys threeKeys ! currentIndex threeKeys) = 0" by (simp add: threeKeys_def)
  have h3: "MAX_FAILURES_BEFORE_LONG_COOLDOWN
      \<le> int (length [(1700000000000::int, 1700000000001::int), (1700000002000, 1700000002000),
                       (1700000004000, 1700000004003)])"
    by (simp add: MAX_FAILURES_BEFORE_LONG_COOLDOWN_def)
  have c: "currentIndex threeKeys = 0" by (simp add: threeKeys_def)
  from markFailed_escalates_cooldown [OF h1 h2 h3] obtain s' where
    r: "markFailedTimes [(1700000000000, 1700000000001), (1700000002000, 1700000002000),
                          (1700000004000, 1700000004003)] threeKeys = Inr s'"
    and f: "failureCount (keys s' ! currentIndex threeKeys)
             = int (length [(1700000000000::int, 1700000000001::int), (1700000002000, 1700000002000),
                            (1700000004000, 1700000004003)])"
    and d: "cooldownUntil (keys s' ! currentIndex threeKeys)
             - snd (last [(1700000000000::int, 1700000000001::int), (1700000002000, 1700000002000),
                          (1700000004000, 1700000004003)]) = LONG_COOLDOWN_MS"
    by blast
  from f have f': "failureCount (keys s' ! 0) = 3" by (simp add: c)
  from d have d': "cooldownUntil (keys s' ! 0) - 1700000004003 = 300000"
    by (simp add: c LONG_COOLDOWN_MS_def)
  from r f' d' show ?thesis by blast
qed

lemma find_least:
  "sorted_wrt (<) xs \<Longrightarrow> w \<in> set xs \<Longrightarrow> Q w \<Longrightarrow> (\<forall>j\<in>set xs. j < w \<longrightarrow> \<not> Q j)
    \<Longrightarrow> find Q xs = Some (w::nat)"
  by (induction xs) auto

lemma others_set: "set (others cur ks) = {i. i < length ks \<and> i \<noteq> cur}"
  by (auto simp add: others_def)

lemma others_sorted: "sorted_wrt (<) (others cur ks)"
  by (simp add: others_def sorted_wrt_filter)

text \<open>The state of the first loop after the indices below \<open>m\<close>.\<close>

lemma scoreLoop_invariant:
  "\<exists>bi bs. foldl (scoreStep now cur ks) (None, None) [0..<m] = (bi, bs)
     \<and> (case bi of
          None \<Rightarrow> bs = None \<and> (\<forall>j<m. j = cur)
        | Some w \<Rightarrow>
            bs = Some (score now (ks ! w)) \<and> w < m \<and> w \<noteq> cur
            \<and> (\<forall>j<m. j \<noteq> cur \<longrightarrow> score now (ks ! j) \<le> score now (ks ! w))
            \<and> (\<forall>j<w. j \<noteq> cur \<longrightarrow> score now (ks ! j) < score now (ks ! w)))"
proof (induction m)
  case 0
  show ?case by simp
next
  case (Suc m)
  then obtain bi bs where f: "foldl (scoreStep now cur ks) (None, None) [0..<m] = (bi, bs)"
    and inv: "case bi of
          None \<Rightarrow> bs = None \<and> (\<forall>j<m. j = cur)
        | Some w \<Rightarrow>
            bs = Some (score now (ks ! w)) \<and> w < m \<and> w \<noteq> cur
            \<and> (\<forall>j<m. j \<noteq> cur \<longrightarrow> score now (ks ! j) \<le> score now (ks ! w))
            \<and> (\<forall>j<w. j \<noteq> cur \<longrightarrow> score now (ks ! j) < score now (ks ! w))"
    by blast
  have step: "foldl (scoreStep now cur ks) (None, None) [0..<Suc m]
      = scoreStep now cur ks (bi, bs) m" by (simp add: f)
  show ?case
  proof (cases "m = cur")
    case True
    with inv show ?thesis
      unfolding step by (cases bi) (auto simp add: scoreStep_def less_Suc_eq)
  next
    case False
    show ?thesis
    proof (cases bi)
      case None
      with inv False show ?thesis
        unfolding step by (auto simp add: scoreStep_def Let_def less_Suc_eq)
    next
      case (Some w)
      with inv have b: "bs = Some (score now (ks ! w))" "w < m" "w \<noteq> cur"
        "\<forall>j<m. j \<noteq> cur \<longrightarrow> score now (ks ! j) \<le> score now (ks ! w)"
        "\<forall>j<w. j \<noteq> cur \<longrightarrow> score now (ks ! j) < score now (ks ! w)" by simp_all
      show ?thesis
      proof (cases "score now (ks ! m) > score now (ks ! w)")
        case True
        have "\<forall>j<m. j \<noteq> cur \<longrightarrow> score now (ks ! j) < score now (ks ! m)"
          using b(4) True by fastforce
        with True False Some b show ?thesis
          unfolding step by (auto simp add: scoreStep_def Let_def less_Suc_eq)
      next
        case no: False
        with False Some b show ?thesis
          unfolding step by (auto simp add: scoreStep_def Let_def less_Suc_eq)
      qed
    qed
  qed
qed

lemma shortestLoop_none:
  "\<forall>j<m. j = cur \<Longrightarrow> foldl (shortestStep now cur ks) (None, None) [0..<m] = (None, None)"
  by (induction m) (simp_all add: shortestStep_def)

lemma scoreLoop_highestScore: "scoreLoop now cur ks = highestScore now cur ks"
proof -
  from scoreLoop_invariant [of now cur ks "length ks"] obtain bi bs where
    f: "foldl (scoreStep now cur ks) (None, None) [0..<length ks] = (bi, bs)"
    and inv: "case bi of
          None \<Rightarrow> bs = None \<and> (\<forall>j<length ks. j = cur)
        | Some w \<Rightarrow>
            bs = Some (score now (ks ! w)) \<and> w < length ks \<and> w \<noteq> cur
            \<and> (\<forall>j<length ks. j \<noteq> cur \<longrightarrow> score now (ks ! j) \<le> score now (ks ! w))
            \<and> (\<forall>j<w. j \<noteq> cur \<longrightarrow> score now (ks ! j) < score now (ks ! w))"
    by blast
  have l: "scoreLoop now cur ks = bi" by (simp add: scoreLoop_def f)
  show ?thesis
  proof (cases bi)
    case None
    with inv have "set (others cur ks) = {}" by (auto simp add: others_set)
    then have "others cur ks = []" by simp
    with None l show ?thesis by (simp add: highestScore_def)
  next
    case (Some w)
    with inv have b: "w < length ks" "w \<noteq> cur"
      "\<forall>j<length ks. j \<noteq> cur \<longrightarrow> score now (ks ! j) \<le> score now (ks ! w)"
      "\<forall>j<w. j \<noteq> cur \<longrightarrow> score now (ks ! j) < score now (ks ! w)" by simp_all
    let ?Q = "\<lambda>i. list_all (\<lambda>j. score now (ks ! j) \<le> score now (ks ! i)) (others cur ks)"
    have w: "w \<in> set (others cur ks)" using b by (simp add: others_set)
    have q: "?Q w" using b(3) by (simp add: list_all_iff others_set)
    have nq: "\<forall>j\<in>set (others cur ks). j < w \<longrightarrow> \<not> ?Q j"
    proof (intro ballI impI)
      fix j assume j: "j \<in> set (others cur ks)" "j < w"
      with b(4) have "score now (ks ! j) < score now (ks ! w)" by (simp add: others_set)
      then have "\<not> score now (ks ! w) \<le> score now (ks ! j)" by simp
      with w show "\<not> ?Q j" unfolding list_all_iff by blast
    qed
    from find_least [OF others_sorted w, of ?Q, OF q nq] Some l show ?thesis
      by (simp add: highestScore_def)
  qed
qed

lemma no_candidate:
  assumes "highestScore now cur ks = None"
  shows "others cur ks = []"
    and "shortestLoop now cur ks = shortestCooldown now cur ks"
proof -
  from scoreLoop_invariant [of now cur ks "length ks"] obtain bi bs where
    f: "foldl (scoreStep now cur ks) (None, None) [0..<length ks] = (bi, bs)"
    and inv: "case bi of
          None \<Rightarrow> bs = None \<and> (\<forall>j<length ks. j = cur)
        | Some w \<Rightarrow>
            bs = Some (score now (ks ! w)) \<and> w < length ks \<and> w \<noteq> cur
            \<and> (\<forall>j<length ks. j \<noteq> cur \<longrightarrow> score now (ks ! j) \<le> score now (ks ! w))
            \<and> (\<forall>j<w. j \<noteq> cur \<longrightarrow> score now (ks ! j) < score now (ks ! w))"
    by blast
  from assms have "bi = None"
    by (simp add: scoreLoop_highestScore [symmetric] scoreLoop_def f)
  with inv have all: "\<forall>j<length ks. j = cur" by simp
  then have "set (others cur ks) = {}" by (auto simp add: others_set)
  then show e: "others cur ks = []" by simp
  from shortestLoop_none [OF all] e
  show "shortestLoop now cur ks = shortestCooldown now cur ks"
    by (simp add: shortestLoop_def shortestCooldown_def)
qed

lemma candidate_exists:
  assumes "2 \<le> length ks"
  shows "\<exists>w. highestScore now cur ks = Some w \<and> w < length ks \<and> w \<noteq> cur"
proof (cases "highestScore now cur ks")
  case None
  from no_candidate(1) [OF None] have "set (others cur ks) = {}" by simp
  then have "\<forall>j<length ks. j = cur" by (auto simp add: others_set)
  moreover from assms have "0 < length ks" "1 < length ks" by linarith+
  ultimately have "0 = cur" "1 = cur" by blast+
  then show ?thesis by simp
next
  case (Some w)
  then have "w \<in> set (others cur ks)"
    unfolding highestScore_def by (auto simp add: find_Some_iff)
  with Some show ?thesis by (simp add: others_set)
qed

lemma scoreLoop_Some:
  assumes "scoreLoop now cur ks = Some w"
  shows "w < length ks \<and> w \<noteq> cur
         \<and> (\<forall>j<length ks. j \<noteq> cur \<longrightarrow> score now (ks ! j) \<le> score now (ks ! w))
         \<and> (\<forall>j<w. j \<noteq> cur \<longrightarrow> score now (ks ! j) < score now (ks ! w))"
proof -
  from scoreLoop_invariant [of now cur ks "length ks"] obtain bi bs where
    f: "foldl (scoreStep now cur ks) (None, None) [0..<length ks] = (bi, bs)"
    and inv: "case bi of
          None \<Rightarrow> bs = None \<and> (\<forall>j<length ks. j = cur)
        | Some w \<Rightarrow>
            bs = Some (score now (ks ! w)) \<and> w < length ks \<and> w \<noteq> cur
            \<and> (\<forall>j<length ks. j \<noteq> cur \<longrightarrow> score now (ks ! j) \<le> score now (ks ! w))
            \<and> (\<forall>j<w. j \<noteq> cur \<longrightarrow> score now (ks ! j) < score now (ks ! w))"
    by blast
  from assms have "bi = Some w" by (simp add: scoreLoop_def f)
  with inv show ?thesis by simp
qed

text \<open>
  Claim C2. \<^verbatim>\<open>rotate()\<close> on a pool of at most one credential returns false and changes
  nothing. On a larger pool it calls \<^verbatim>\<open>markFailed()\<close> on the current credential, scores the
  other credentials (\<open>score\<close>: 1000 when not in cooldown, else 0; minus 100 per failure; plus
  the successes; minus, in cooldown, the remaining milliseconds over 1000; computed as the
  code computes it, in double precision), makes the first one in pool order with the
  highest score current, and returns true; the two fallbacks
  (shortest remaining cooldown, then round-robin) apply when no candidate is selected. That
  is the selection \<open>rotateSpec\<close>. With two or more credentials the first loop always selects
  a candidate other than the current one.
\<close>

theorem rotate_selects_healthiest:
  "rotate now t1 t2 s = rotateSpec now t1 t2 s
   \<and> (length (keys s) \<le> 1 \<longrightarrow> rotate now t1 t2 s = Inr (False, s))
   \<and> (2 \<le> length (keys s) \<and> currentIndex s < length (keys s) \<longrightarrow>
        (\<exists>s1 w. markFailed t1 t2 s = Inr s1
           \<and> rotate now t1 t2 s = Inr (True, s1\<lparr>currentIndex := w\<rparr>)
           \<and> w < length (keys s) \<and> w \<noteq> currentIndex s
           \<and> (\<forall>j<length (keys s). j \<noteq> currentIndex s \<longrightarrow>
                 score now (keys s ! j) \<le> score now (keys s ! w))
           \<and> (\<forall>j<w. j \<noteq> currentIndex s \<longrightarrow> score now (keys s ! j) < score now (keys s ! w))))"
proof (intro conjI impI)
  show "rotate now t1 t2 s = rotateSpec now t1 t2 s"
  proof (cases "markFailed t1 t2 s")
    case (Inl e)
    then show ?thesis by (simp add: rotate_def rotateSpec_def)
  next
    case (Inr s1)
    show ?thesis
    proof (cases "highestScore now (currentIndex s1) (keys s1)")
      case None
      from no_candidate(2) [OF None] None Inr show ?thesis
        by (simp add: rotate_def rotateSpec_def Let_def scoreLoop_highestScore)
    next
      case (Some w)
      with Inr show ?thesis
        by (simp add: rotate_def rotateSpec_def Let_def scoreLoop_highestScore)
    qed
  qed
next
  assume "length (keys s) \<le> 1"
  then show "rotate now t1 t2 s = Inr (False, s)" by (simp add: rotate_def)
next
  assume a: "2 \<le> length (keys s) \<and> currentIndex s < length (keys s)"
  define s1 where "s1 = s\<lparr>keys := (keys s)[currentIndex s :=
                  (keys s ! currentIndex s)
                    \<lparr>failureCount := failureCount (keys s ! currentIndex s) + 1,
                     lastFailure := Some t1,
                     cooldownUntil := t2 + (if 3 \<le> failureCount (keys s ! currentIndex s) + 1
                                            then 300000 else 60000)\<rparr>]\<rparr>"
  from a have m: "markFailed t1 t2 s = Inr s1"
    unfolding s1_def by (simp add: markFailed_valid)
  have s1: "currentIndex s1 = currentIndex s" "length (keys s1) = length (keys s)"
    "\<And>j. j \<noteq> currentIndex s \<Longrightarrow> keys s1 ! j = keys s ! j"
    by (simp_all add: s1_def)
  from a candidate_exists [of "keys s1" now "currentIndex s1"] obtain w where
    w: "highestScore now (currentIndex s1) (keys s1) = Some w" "w < length (keys s)"
       "w \<noteq> currentIndex s"
    by (auto simp add: s1)
  from a have r: "rotate now t1 t2 s = Inr (True, s1\<lparr>currentIndex := w\<rparr>)"
    by (simp add: rotate_def m Let_def scoreLoop_highestScore w(1))
  from w(1) have "scoreLoop now (currentIndex s) (keys s1) = Some w"
    by (simp add: scoreLoop_highestScore s1)
  from scoreLoop_Some [OF this]
  have top1: "\<forall>j<length (keys s1). j \<noteq> currentIndex s \<longrightarrow>
                 score now (keys s1 ! j) \<le> score now (keys s1 ! w)"
    and first1: "\<forall>j<w. j \<noteq> currentIndex s \<longrightarrow> score now (keys s1 ! j) < score now (keys s1 ! w)"
    by blast+
  have top: "\<forall>j<length (keys s). j \<noteq> currentIndex s \<longrightarrow>
                 score now (keys s ! j) \<le> score now (keys s ! w)"
    using top1 w(3) by (simp add: s1)
  have first: "\<forall>j<w. j \<noteq> currentIndex s \<longrightarrow> score now (keys s ! j) < score now (keys s ! w)"
    using first1 w(3) by (simp add: s1)
  from m r w(2) w(3) top first
  show "\<exists>s1 w. markFailed t1 t2 s = Inr s1
           \<and> rotate now t1 t2 s = Inr (True, s1\<lparr>currentIndex := w\<rparr>)
           \<and> w < length (keys s) \<and> w \<noteq> currentIndex s
           \<and> (\<forall>j<length (keys s). j \<noteq> currentIndex s \<longrightarrow>
                 score now (keys s ! j) \<le> score now (keys s ! w))
           \<and> (\<forall>j<w. j \<noteq> currentIndex s \<longrightarrow> score now (keys s ! j) < score now (keys s ! w))"
    by blast
qed

lemma threeKeys_rotateSpec:
  "rotateSpec 1700000000000 1700000000001 1700000000002 threeKeys
     = Inr (True,
            \<lparr>keys =
               [\<lparr>key = ''AIzaSy-first-key'', failureCount = 1, lastFailure = Some 1700000000001,
                 cooldownUntil = 1700000060002, successCount = 4\<rparr>,
                \<lparr>key = ''AIzaSy-second-key'', failureCount = 1, lastFailure = Some 1699999990000,
                 cooldownUntil = 1700000050000, successCount = 9\<rparr>,
                \<lparr>key = ''AIzaSy-third-key'', failureCount = 2, lastFailure = Some 1699999000000,
                 cooldownUntil = 1699999060000, successCount = 5\<rparr>],
             currentIndex = 2\<rparr>)"
  by code_simp

lemma threeKeys_scores:
  "score 1700000000000 (keys threeKeys ! 1) = - 141"
  "score 1700000000000 (keys threeKeys ! 2) = 805"
  by code_simp+

lemma tiedKeys_rotateSpec:
  "rotateSpec 1700000000000 1700000000001 1700000000002 tiedKeys
     = Inr (True,
            \<lparr>keys =
               [\<lparr>key = ''AIzaSy-first-key'', failureCount = 1, lastFailure = Some 1700000000001,
                 cooldownUntil = 1700000060002, successCount = 0\<rparr>,
                \<lparr>key = ''AIzaSy-second-key'', failureCount = 1, lastFailure = Some 1699999941808,
                 cooldownUntil = 1700000001808, successCount = 0\<rparr>,
                \<lparr>key = ''AIzaSy-third-key'', failureCount = 1, lastFailure = Some 1699999942808,
                 cooldownUntil = 1700000002808, successCount = 1\<rparr>],
             currentIndex = 2\<rparr>)"
  by code_simp

lemma tiedKeys_scores:
  "score 1700000000000 (keys tiedKeys ! 1) < score 1700000000000 (keys tiedKeys ! 2)"
  by code_simp

theorem rotate_selects_healthiest_witness:
  "rotate 1700000000000 1700000000001 1700000000002 threeKeys
     = Inr (True,
            \<lparr>keys =
               [\<lparr>key = ''AIzaSy-first-key'', failureCount = 1, lastFailure = Some 1700000000001,
                 cooldownUntil = 1700000060002, successCount = 4\<rparr>,
                \<lparr>key = ''AIzaSy-second-key'', failureCount = 1, lastFailure = Some 1699999990000,
                 cooldownUntil = 1700000050000, successCount = 9\<rparr>,
                \<lparr>key = ''AIzaSy-third-key'', failureCount = 2, lastFailure = Some 1699999000000,
                 cooldownUntil = 1699999060000, successCount = 5\<rparr>],
             currentIndex = 2\<rparr>)
   \<and> score 1700000000000 (keys threeKeys ! 1) = - 141
   \<and> score 1700000000000 (keys threeKeys ! 2) = 805
   \<and> rotate 1700000000000 1700000000001 1700000000002 tiedKeys
     = Inr (True,
            \<lparr>keys =
               [\<lparr>key = ''AIzaSy-first-key'', failureCount = 1, lastFailure = Some 1700000000001,
                 cooldownUntil = 1700000060002, successCount = 0\<rparr>,
                \<lparr>key = ''AIzaSy-second-key'', failureCount = 1, lastFailure = Some 1699999941808,
                 cooldownUntil = 1700000001808, successCount = 0\<rparr>,
                \<lparr>key = ''AIzaSy-third-key'', failureCount = 1, lastFailure = Some 1699999942808,
                 cooldownUntil = 1700000002808, successCount = 1\<rparr>],
             currentIndex = 2\<rparr>)
   \<and> score 1700000000000 (keys tiedKeys ! 1) < score 1700000000000 (keys tiedKeys ! 2)"
proof -
  have a: "rotate 1700000000000 1700000000001 1700000000002 threeKeys
      = rotateSpec 1700000000000 1700000000001 1700000000002 threeKeys"
    using rotate_selects_healthiest [of 1700000000000 1700000000001 1700000000002 threeKeys]
    by blast
  have b: "rotate 1700000000000 1700000000001 1700000000002 tiedKeys
      = rotateSpec 1700000000000 1700000000001 1700000000002 tiedKeys"
    using rotate_selects_healthiest [of 1700000000000 1700000000001 1700000000002 tiedKeys]
    by blast
  show ?thesis
    unfolding a b threeKeys_rotateSpec tiedKeys_rotateSpec
    using threeKeys_scores tiedKeys_scores by simp
qed

section \<open>Workflow runs\<close>

lemma attemptLoop_exhausted_calls:
  "attemptLoop exec cmd n msg w = (Exhausted, msg', calls, w') \<Longrightarrow> calls = replicate n cmd"
proof (induction n arbitrary: msg w msg' calls w')
  case 0
  then show ?case by simp
next
  case (Suc n)
  obtain r w1 where e: "exec cmd w = (r, w1)" by (cases "exec cmd w")
  show ?case
  proof (cases r)
    case NoReply
    with Suc.prems e show ?thesis by simp
  next
    case (Reply st m)
    show ?thesis
    proof (cases "st = ''error''")
      case True
      obtain en m2 cs w2 where a: "attemptLoop exec cmd n (orElse m ''OK'') w1 = (en, m2, cs, w2)"
        by (cases "attemptLoop exec cmd n (orElse m ''OK'') w1")
      with Suc.prems e Reply True have "en = Exhausted" "calls = cmd # cs" by simp_all
      with a Suc.IH [of "orElse m ''OK''" w1 m2 cs w2] show ?thesis by simp
    next
      case False
      with Suc.prems e Reply show ?thesis by simp
    qed
  next
    case (Threw m)
    obtain en m2 cs w2 where a: "attemptLoop exec cmd n (orElse m ''Error'') w1 = (en, m2, cs, w2)"
      by (cases "attemptLoop exec cmd n (orElse m ''Error'') w1")
    with Suc.prems e Threw have "en = Exhausted" "calls = cmd # cs" by simp_all
    with a Suc.IH [of "orElse m ''Error''" w1 m2 cs w2] show ?thesis by simp
  next
    case ThrewNullish
    with Suc.prems e show ?thesis by simp
  qed
qed

lemma attemptLoop_no_throw:
  assumes "\<And>c v. fst (exec c v) \<noteq> ThrewNullish"
  shows "fst (attemptLoop exec cmd n msg w) \<noteq> CatchThrew err"
proof (induction n arbitrary: msg w)
  case 0
  show ?case by simp
next
  case (Suc n)
  obtain r w1 where e: "exec cmd w = (r, w1)" by (cases "exec cmd w")
  with assms [of cmd w] have "r \<noteq> ThrewNullish" by simp
  with e Suc.IH show ?case
    by (cases r) (auto simp add: split_beta)
qed

lemma executeStep_failed:
  assumes "executeStep rt exec step w = (Inr (False, r), calls, w')"
  shows "sr_status r = StepFailed \<and> stepId r = step_id step
         \<and> calls = replicate (nat (maxAttempts step)) (stepCommand step)"
proof -
  obtain en m cs w2 where a:
    "attemptLoop exec (stepCommand step) (nat (maxAttempts step)) [] (delayed rt step w) = (en, m, cs, w2)"
    by (cases "attemptLoop exec (stepCommand step) (nat (maxAttempts step)) [] (delayed rt step w)")
  with assms have "en = Exhausted" "calls = cs" "sr_status r = StepFailed" "stepId r = step_id step"
    by (cases en; auto simp add: executeStep_def Let_def)+
  with a attemptLoop_exhausted_calls [of exec "stepCommand step" "nat (maxAttempts step)" "[]"
      "delayed rt step w" m cs w2]
  show ?thesis by simp
qed

lemma executeStep_status:
  "executeStep rt exec step w = (Inr (ok, r), calls, w') \<Longrightarrow> (sr_status r = StepFailed) = (\<not> ok)"
  by (auto simp add: executeStep_def Let_def split: prod.splits attempt_end.splits)

lemma executeStep_no_throw:
  assumes "\<And>c v. fst (exec c v) \<noteq> ThrewNullish"
  shows "fst (executeStep rt exec step w) \<noteq> Inl err"
proof -
  obtain en m cs w2 where a:
    "attemptLoop exec (stepCommand step) (nat (maxAttempts step)) [] (delayed rt step w) = (en, m, cs, w2)"
    by (cases "attemptLoop exec (stepCommand step) (nat (maxAttempts step)) [] (delayed rt step w)")
  have "fst (attemptLoop exec (stepCommand step) (nat (maxAttempts step)) [] (delayed rt step w))
      \<noteq> CatchThrew e" for e
    by (rule attemptLoop_no_throw [OF assms])
  with a have "\<And>e. en \<noteq> CatchThrew e" by simp
  with a show ?thesis by (cases en) (simp_all add: executeStep_def Let_def)
qed

text \<open>Running a list of steps in two parts.\<close>

lemma runSteps_append:
  "runSteps rt exec (pre @ rest) w =
     (case runSteps rt exec pre w of (rs, calls, ex, w1) \<Rightarrow>
        if ex \<noteq> LoopEnded then (rs, calls, ex, w1)
        else (case runSteps rt exec rest w1 of (rs', calls', ex', w2) \<Rightarrow>
                (rs @ rs', calls @ calls', ex', w2)))"
proof (induction pre arbitrary: w)
  case Nil
  show ?case by (simp split: prod.splits)
next
  case (Cons p pre)
  show ?case
  proof (cases "conditionFails rt p w")
    case True
    then show ?thesis by (simp add: Cons.IH split_beta)
  next
    case False
    obtain res cs w1 where e: "executeStep rt exec p w = (res, cs, w1)"
      by (cases "executeStep rt exec p w")
    show ?thesis
    proof (cases res)
      case (Inl err)
      with False e show ?thesis by simp
    next
      case (Inr okr)
      obtain ok r where okr: "okr = (ok, r)" by (cases okr)
      show ?thesis
      proof (cases "\<not> ok \<and> onFailure p = Some Abort")
        case True
        with False e Inr okr show ?thesis by simp
      next
        case no: False
        with False e Inr okr show ?thesis by (auto simp add: Cons.IH split_beta)
      qed
    qed
  qed
qed

lemma runSteps_no_throw:
  assumes "\<And>c v. fst (exec c v) \<noteq> ThrewNullish"
  shows "fst (snd (snd (runSteps rt exec ss w))) \<noteq> LoopThrew err"
proof (induction ss arbitrary: w)
  case Nil
  show ?case by simp
next
  case (Cons p ss)
  show ?case
  proof (cases "conditionFails rt p w")
    case True
    with Cons.IH [of w] show ?thesis by (simp add: split_beta)
  next
    case False
    obtain res cs w1 where e: "executeStep rt exec p w = (res, cs, w1)"
      by (cases "executeStep rt exec p w")
    have "fst (executeStep rt exec p w) \<noteq> Inl x" for x
      by (rule executeStep_no_throw [OF assms])
    with e obtain ok r where r: "res = Inr (ok, r)"
      by (cases res) auto
    with False e Cons.IH [of w1] show ?thesis by (simp add: split_beta)
  qed
qed

lemma runSteps_abort:
  assumes "runSteps rt exec pre w = (rs, calls, LoopEnded, w1)"
    and "\<not> conditionFails rt step w1"
    and "executeStep rt exec step w1 = (Inr (False, r), calls1, w2)"
    and "onFailure step = Some Abort"
  shows "runSteps rt exec (pre @ step # post) w = (rs @ [r], calls @ calls1, LoopBroke, w2)"
  using assms by (simp add: runSteps_append)

lemma runSteps_continue:
  assumes "runSteps rt exec pre w = (rs, calls, LoopEnded, w1)"
    and "\<not> conditionFails rt step w1"
    and "executeStep rt exec step w1 = (Inr (False, r), calls1, w2)"
    and "onFailure step \<noteq> Some Abort"
    and "runSteps rt exec post w2 = (rs', calls', ex', w3)"
  shows "runSteps rt exec (pre @ step # post) w =
           (rs @ r # rs', calls @ calls1 @ calls', ex', w3)"
  using assms by (simp add: runSteps_append)

lemma executeWorkflow_runs:
  assumes "executor eng = Some exec"
    and "resolveWorkflow rt (workflows eng) name = Some (k, flow)"
    and "wf_enabled flow"
    and "runSteps rt exec (steps flow) w = (rs, calls, ex, w')"
    and "ex = LoopEnded \<or> ex = LoopBroke"
  shows "executeWorkflow rt eng name w =
           (Inr (Some \<lparr>workflowId = wf_id flow, workflowName = wf_name flow,
                       startedAt = clock rt w, completedAt = clock rt w',
                       res_steps = rs, res_status = runStatus rs\<rparr>),
            eng\<lparr>workflows :=
                  map (\<lambda>(k', v). if k' = k
                                  then (k', flow\<lparr>lastRun := Some (clock rt w'),
                                               runCount := runCount flow + 1\<rparr>)
                                  else (k', v))
                    (workflows eng)\<rparr>,
            calls, w')"
  using assms by (auto simp add: executeWorkflow_def)

lemma executeWorkflow_throws:
  assumes "executor eng = Some exec"
    and "resolveWorkflow rt (workflows eng) name = Some (k, flow)"
    and "wf_enabled flow"
    and "runSteps rt exec (steps flow) w = (rs, calls, LoopThrew err, w')"
  shows "executeWorkflow rt eng name w = (Inl err, eng, calls, w')"
  using assms by (simp add: executeWorkflow_def)

lemma resolveWorkflow_key:
  "resolveWorkflow rt wfs name = Some (k, flow) \<Longrightarrow> k \<in> fst ` set wfs"
proof (cases "map_of wfs name")
  case None
  assume "resolveWorkflow rt wfs name = Some (k, flow)"
  with None obtain i where "i < length wfs" "wfs ! i = (k, flow)"
    by (auto simp add: resolveWorkflow_def find_Some_iff)
  then have "(k, flow) \<in> set wfs" using nth_mem [of i wfs] by simp
  then show ?thesis by force
next
  case (Some x)
  assume "resolveWorkflow rt wfs name = Some (k, flow)"
  with Some have "k = name" "x = flow" by (simp_all add: resolveWorkflow_def)
  with Some have "(k, flow) \<in> set wfs" by (simp add: map_of_SomeD)
  then show ?thesis by force
qed

lemma map_of_replaced:
  "k \<in> fst ` set wfs
    \<Longrightarrow> map_of (map (\<lambda>(k', v). if k' = k then (k', x) else (k', v)) wfs) k = Some x"
  by (induction wfs) auto

lemma runSteps_aborted:
  "runSteps rt exec ss w = (rs, calls, LoopBroke, w') \<Longrightarrow> rs \<noteq> [] \<and> sr_status (last rs) = StepFailed"
proof (induction ss arbitrary: w rs calls w')
  case Nil
  then show ?case by simp
next
  case (Cons p ss)
  show ?case
  proof (cases "conditionFails rt p w")
    case True
    obtain rs1 c1 a1 w1 where t: "runSteps rt exec ss w = (rs1, c1, a1, w1)"
      by (cases "runSteps rt exec ss w")
    with True Cons.prems have "a1 = LoopBroke" "rs = skippedResult p # rs1" by simp_all
    with t Cons.IH [of w rs1 c1 w1] show ?thesis by simp
  next
    case False
    obtain res cs w1 where e: "executeStep rt exec p w = (res, cs, w1)"
      by (cases "executeStep rt exec p w")
    show ?thesis
    proof (cases res)
      case (Inl err)
      with False e Cons.prems show ?thesis by simp
    next
      case (Inr okr)
      obtain ok r where okr: "okr = (ok, r)" by (cases okr)
      show ?thesis
      proof (cases "\<not> ok \<and> onFailure p = Some Abort")
        case True
        with False e Inr okr Cons.prems have "rs = [r]" by simp
        with True executeStep_status [of rt exec p w ok r cs w1] e Inr okr show ?thesis by simp
      next
        case no: False
        obtain rs1 c1 a1 w2 where t: "runSteps rt exec ss w1 = (rs1, c1, a1, w2)"
          by (cases "runSteps rt exec ss w1")
        with no False e Inr okr Cons.prems have "a1 = LoopBroke" "rs = r # rs1" by auto
        with t Cons.IH [of w1 rs1 c1 w2] show ?thesis by simp
      qed
    qed
  qed
qed

text \<open>
  Runs that no exception leaves: the status follows from the recorded steps, \<open>runCount\<close>
  grows by one and \<open>lastRun\<close> is set, whether the loop ended or was left by an abort.
\<close>

lemma completed_run_status_and_count:
  assumes "executor eng = Some exec"
    and "resolveWorkflow rt (workflows eng) name = Some (k, flow)"
    and "wf_enabled flow"
    and "runSteps rt exec (steps flow) w = (rs, calls, ex, w')"
    and "ex = LoopEnded \<or> ex = LoopBroke"
  shows "\<exists>res eng'.
           executeWorkflow rt eng name w = (Inr (Some res), eng', calls, w')
           \<and> res_steps res = rs
           \<and> (list_all (\<lambda>s. sr_status s = StepSuccess \<or> sr_status s = StepSkipped) rs
                \<longrightarrow> res_status res = RunCompleted)
           \<and> (rs \<noteq> [] \<and> list_all (\<lambda>s. sr_status s = StepFailed) rs
                \<longrightarrow> res_status res = RunFailed)
           \<and> (\<not> list_all (\<lambda>s. sr_status s = StepSuccess \<or> sr_status s = StepSkipped) rs
               \<and> \<not> list_all (\<lambda>s. sr_status s = StepFailed) rs
                \<longrightarrow> res_status res = RunPartial)
           \<and> (ex = LoopBroke \<longrightarrow> res_status res \<noteq> RunCompleted)
           \<and> map_of (workflows eng') k
               = Some (flow\<lparr>lastRun := Some (clock rt w'), runCount := runCount flow + 1\<rparr>)"
proof -
  let ?res = "\<lparr>workflowId = wf_id flow, workflowName = wf_name flow,
                  startedAt = clock rt w, completedAt = clock rt w',
                  res_steps = rs, res_status = runStatus rs\<rparr>"
  let ?eng = "eng\<lparr>workflows :=
                  map (\<lambda>(k', v). if k' = k
                                  then (k', flow\<lparr>lastRun := Some (clock rt w'),
                                               runCount := runCount flow + 1\<rparr>)
                                  else (k', v))
                    (workflows eng)\<rparr>"
  have e: "executeWorkflow rt eng name w = (Inr (Some ?res), ?eng, calls, w')"
    by (rule executeWorkflow_runs [OF assms])
  have c1: "list_all (\<lambda>s. sr_status s = StepSuccess \<or> sr_status s = StepSkipped) rs
                \<longrightarrow> runStatus rs = RunCompleted"
    by (simp add: runStatus_def)
  have c2: "rs \<noteq> [] \<and> list_all (\<lambda>s. sr_status s = StepFailed) rs \<longrightarrow> runStatus rs = RunFailed"
    by (cases rs) (auto simp add: runStatus_def)
  have c3: "\<not> list_all (\<lambda>s. sr_status s = StepSuccess \<or> sr_status s = StepSkipped) rs
               \<and> \<not> list_all (\<lambda>s. sr_status s = StepFailed) rs
                \<longrightarrow> runStatus rs = RunPartial"
    by (simp add: runStatus_def)
  have c4: "ex = LoopBroke \<longrightarrow> runStatus rs \<noteq> RunCompleted"
  proof
    assume "ex = LoopBroke"
    with assms(4) runSteps_aborted [of rt exec "steps flow" w rs calls w']
    have "rs \<noteq> []" "sr_status (last rs) = StepFailed" by simp_all
    moreover from this have "last rs \<in> set rs" by simp
    ultimately have "\<not> list_all (\<lambda>s. sr_status s = StepSuccess \<or> sr_status s = StepSkipped) rs"
      unfolding list_all_iff by (intro notI) (drule bspec, assumption, simp)
    then show "runStatus rs \<noteq> RunCompleted" by (simp add: runStatus_def)
  qed
  have c5: "map_of (workflows ?eng) k
               = Some (flow\<lparr>lastRun := Some (clock rt w'), runCount := runCount flow + 1\<rparr>)"
    using map_of_replaced [OF resolveWorkflow_key [OF assms(2)]] by simp
  show ?thesis
    by (intro exI [of _ ?res] exI [of _ ?eng] conjI) (use e c1 c2 c3 c4 c5 in simp_all)
qed

text \<open>An executor that never rejects with \<^verbatim>\<open>null\<close> or \<^verbatim>\<open>undefined\<close> gives such a run.\<close>

lemma run_completes:
  assumes "\<And>c v. fst (exec c v) \<noteq> ThrewNullish"
    and "runSteps rt exec ss w = (rs, calls, ex, w')"
  shows "ex = LoopEnded \<or> ex = LoopBroke"
proof -
  have n: "fst (snd (snd (runSteps rt exec ss w))) \<noteq> LoopThrew err" for err
    by (rule runSteps_no_throw [OF assms(1)])
  show ?thesis
  proof (cases ex)
    case (LoopThrew err)
    with assms(2) n [of err] show ?thesis by simp
  qed simp_all
qed

text \<open>The demonstration run: step 1 succeeds, step 2 fails twice and aborts, step 3 never runs.\<close>

lemma demo_resolve:
  "resolveWorkflow demoRuntime (workflows (demoEngine ss)) ''demo'' = Some (''demo'', demoWorkflow ss)"
  by (simp add: resolveWorkflow_def demoEngine_def)

lemma demo_abort_run:
  "runSteps demoRuntime demoExecutor abortSteps 0 =
     ([\<lparr>stepId = ''s1'', sr_action = ''open_app'', sr_status = StepSuccess,
        sr_result = ''done'', duration = 5\<rparr>,
       \<lparr>stepId = ''s2'', sr_action = ''bad_action'', sr_status = StepFailed,
        sr_result = ''Unknown action'', duration = 10\<rparr>],
      [stepCommand (demoStep ''s1'' ''open_app'' None None),
       stepCommand (demoStep ''s2'' ''bad_action'' (Some Abort) (Some 2)),
       stepCommand (demoStep ''s2'' ''bad_action'' (Some Abort) (Some 2))],
      LoopBroke, 15)"
  by (simp add: abortSteps_def demoStep_def demoRuntime_def demoExecutor_def conditionFails_def
        executeStep_def delayed_def maxAttempts_def stepCommand_def getProp_def orElse_def
        Let_def numeral_2_eq_2)

lemma demo_abort_workflow:
  "\<exists>res eng'.
     executeWorkflow demoRuntime (demoEngine abortSteps) ''demo'' 0
       = (Inr (Some res), eng',
          [stepCommand (demoStep ''s1'' ''open_app'' None None),
           stepCommand (demoStep ''s2'' ''bad_action'' (Some Abort) (Some 2)),
           stepCommand (demoStep ''s2'' ''bad_action'' (Some Abort) (Some 2))], 15)
     \<and> map sr_status (res_steps res) = [StepSuccess, StepFailed]
     \<and> res_status res = RunPartial
     \<and> map_of (workflows eng') ''demo''
         = Some ((demoWorkflow abortSteps)\<lparr>lastRun := Some 15, runCount := 1\<rparr>)"
proof -
  have h1: "executor (demoEngine abortSteps) = Some demoExecutor" by (simp add: demoEngine_def)
  have h3: "wf_enabled (demoWorkflow abortSteps)" by (simp add: demoWorkflow_def)
  have h4: "runSteps demoRuntime demoExecutor (steps (demoWorkflow abortSteps)) 0
      = ([\<lparr>stepId = ''s1'', sr_action = ''open_app'', sr_status = StepSuccess,
        sr_result = ''done'', duration = 5\<rparr>,
       \<lparr>stepId = ''s2'', sr_action = ''bad_action'', sr_status = StepFailed,
        sr_result = ''Unknown action'', duration = 10\<rparr>],
      [stepCommand (demoStep ''s1'' ''open_app'' None None),
       stepCommand (demoStep ''s2'' ''bad_action'' (Some Abort) (Some 2)),
       stepCommand (demoStep ''s2'' ''bad_action'' (Some Abort) (Some 2))],
      LoopBroke, 15)"
    using demo_abort_run by (simp add: demoWorkflow_def)
  from completed_run_status_and_count [OF h1 demo_resolve h3 h4]
  obtain res eng' where
    e: "executeWorkflow demoRuntime (demoEngine abortSteps) ''demo'' 0
       = (Inr (Some res), eng',
          [stepCommand (demoStep ''s1'' ''open_app'' None None),
           stepCommand (demoStep ''s2'' ''bad_action'' (Some Abort) (Some 2)),
           stepCommand (demoStep ''s2'' ''bad_action'' (Some Abort) (Some 2))], 15)"
    and r: "res_steps res = [\<lparr>stepId = ''s1'', sr_action = ''open_app'', sr_status = StepSuccess,
        sr_result = ''done'', duration = 5\<rparr>,
       \<lparr>stepId = ''s2'', sr_action = ''bad_action'', sr_status = StepFailed,
        sr_result = ''Unknown action'', duration = 10\<rparr>]"
    and p: "\<not> list_all (\<lambda>s. sr_status s = StepSuccess \<or> sr_status s = StepSkipped)
              [\<lparr>stepId = ''s1'', sr_action = ''open_app'', sr_status = StepSuccess,
        sr_result = ''done'', duration = 5\<rparr>,
       \<lparr>stepId = ''s2'', sr_action = ''bad_action'', sr_status = StepFailed,
        sr_result = ''Unknown action'', duration = 10\<rparr>]
            \<and> \<not> list_all (\<lambda>s. sr_status s = StepFailed)
              [\<lparr>stepId = ''s1'', sr_action = ''open_app'', sr_status = StepSuccess,
        sr_result = ''done'', duration = 5\<rparr>,
       \<lparr>stepId = ''s2'', sr_action = ''bad_action'', sr_status = StepFailed,
        sr_result = ''Unknown action'', duration = 10\<rparr>]
                \<longrightarrow> res_status res = RunPartial"
    and m: "map_of (workflows eng') ''demo''
             = Some ((demoWorkflow abortSteps)\<lparr>lastRun := Some (clock demoRuntime 15),
                  runCount := runCount (demoWorkflow abortSteps) + 1\<rparr>)"
    by blast
  from r have st: "map sr_status (res_steps res) = [StepSuccess, StepFailed]" by simp
  from p have pa: "res_status res = RunPartial" by simp
  from m have m': "map_of (workflows eng') ''demo''
         = Some ((demoWorkflow abortSteps)\<lparr>lastRun := Some 15, runCount := 1\<rparr>)"
    by (simp add: demoRuntime_def demoWorkflow_def)
  show ?thesis
    by (intro exI [of _ res] exI [of _ eng'] conjI) (use e st pa m' in simp_all)
qed

text \<open>
  Claim C5. The claim does not hold of every run. When the promise of the executor is
  rejected with \<^verbatim>\<open>null\<close> or \<^verbatim>\<open>undefined\<close>, reading \<^verbatim>\<open>e.message\<close> in the \<^verbatim>\<open>catch\<close> block raises a
  TypeError that leaves \<^verbatim>\<open>executeWorkflow\<close>: the run of the two-step workflow below, whose
  second call is rejected in this way, ends with that exception after both calls; there is
  no result and no status, and the workflow keeps \<open>runCount = 0\<close> and no \<open>lastRun\<close>.
\<close>

theorem null_rejection_leaves_run_uncounted:
  "executeWorkflow demoRuntime (rejectingEngine lateRejectSteps) ''demo'' 0
     = (Inl (TypeError ''Cannot read properties of undefined''),
        rejectingEngine lateRejectSteps,
        [stepCommand (demoStep ''s1'' ''open_app'' None None),
         stepCommand (demoStep ''s2'' ''bad_action'' (Some Skip) None)],
        10)
   \<and> map_of (workflows (rejectingEngine lateRejectSteps)) ''demo''
       = Some (demoWorkflow lateRejectSteps)
   \<and> runCount (demoWorkflow lateRejectSteps) = 0
   \<and> lastRun (demoWorkflow lateRejectSteps) = None"
  by (simp add: executeWorkflow_def resolveWorkflow_def rejectingEngine_def demoWorkflow_def
        lateRejectSteps_def demoStep_def demoRuntime_def nullRejectingExecutor_def
        conditionFails_def executeStep_def delayed_def maxAttempts_def stepCommand_def
        getProp_def orElse_def Let_def)

text \<open>
  The same workflow with an executor that answers the second call with an error status
  instead: the step is recorded as failed and the run is counted.
\<close>

lemma error_reply_run_is_counted:
  "executeWorkflow demoRuntime (demoEngine lateRejectSteps) ''demo'' 0
     = (Inr (Some \<lparr>workflowId = ''demo'', workflowName = ''Demo Mode'', startedAt = 0,
                 completedAt = 10,
                 res_steps =
                   [\<lparr>stepId = ''s1'', sr_action = ''open_app'', sr_status = StepSuccess,
                     sr_result = ''done'', duration = 5\<rparr>,
                    \<lparr>stepId = ''s2'', sr_action = ''bad_action'', sr_status = StepFailed,
                     sr_result = ''Unknown action'', duration = 5\<rparr>],
                 res_status = RunPartial\<rparr>),
        \<lparr>workflows = [(''demo'', (demoWorkflow lateRejectSteps)\<lparr>lastRun := Some 10, runCount := 1\<rparr>)],
         executor = Some demoExecutor\<rparr>,
        [stepCommand (demoStep ''s1'' ''open_app'' None None),
         stepCommand (demoStep ''s2'' ''bad_action'' (Some Skip) None)],
        10)"
  by (simp add: executeWorkflow_def resolveWorkflow_def demoEngine_def demoWorkflow_def
        lateRejectSteps_def demoStep_def demoRuntime_def demoExecutor_def
        conditionFails_def executeStep_def delayed_def maxAttempts_def stepCommand_def
        getProp_def orElse_def Let_def runStatus_def)

text \<open>
  Failure policies in runs that no exception leaves. Take a step that the loop reaches, whose
  condition holds and whose attempts all fail without raising in the \<^verbatim>\<open>catch\<close> block. With
  the policy \<^verbatim>\<open>abort\<close> the run ends there: the recorded results and the commands handed to
  the executor are those of the earlier steps and of this one, whatever steps follow. With
  any other policy (\<^verbatim>\<open>skip\<close>, \<^verbatim>\<open>retry\<close>, or none) the step is recorded once as failed and
  the loop goes on with the following steps.
\<close>

lemma failed_step_policies:
  assumes "executor eng = Some exec"
    and "resolveWorkflow rt (workflows eng) name = Some (k, flow)"
    and "wf_enabled flow"
    and "steps flow = pre @ step # post"
    and "runSteps rt exec pre w = (rs, calls, LoopEnded, w1)"
    and "\<not> conditionFails rt step w1"
    and "executeStep rt exec step w1 = (Inr (False, r), calls1, w2)"
    and "runSteps rt exec post w2 = (rs', calls', ex', w3)"
    and "ex' = LoopEnded \<or> ex' = LoopBroke"
  shows "sr_status r = StepFailed
         \<and> calls1 = replicate (nat (maxAttempts step)) (stepCommand step)
         \<and> (onFailure step = Some Abort \<longrightarrow>
              (\<exists>res eng'. executeWorkflow rt eng name w = (Inr (Some res), eng', calls @ calls1, w2)
                 \<and> res_steps res = rs @ [r]))
         \<and> (onFailure step \<noteq> Some Abort \<longrightarrow>
              (\<exists>res eng'. executeWorkflow rt eng name w
                             = (Inr (Some res), eng', calls @ calls1 @ calls', w3)
                 \<and> res_steps res = rs @ r # rs'))"
proof (intro conjI impI)
  from executeStep_failed [OF assms(7)]
  show "sr_status r = StepFailed"
    and "calls1 = replicate (nat (maxAttempts step)) (stepCommand step)" by simp_all
next
  assume "onFailure step = Some Abort"
  from runSteps_abort [OF assms(5) assms(6) assms(7) this, of post]
  have "runSteps rt exec (steps flow) w = (rs @ [r], calls @ calls1, LoopBroke, w2)"
    by (simp add: assms(4))
  from executeWorkflow_runs [OF assms(1) assms(2) assms(3) this]
  show "\<exists>res eng'. executeWorkflow rt eng name w = (Inr (Some res), eng', calls @ calls1, w2)
                 \<and> res_steps res = rs @ [r]"
    by simp
next
  assume "onFailure step \<noteq> Some Abort"
  from runSteps_continue [OF assms(5) assms(6) assms(7) this assms(8)]
  have "runSteps rt exec (steps flow) w = (rs @ r # rs', calls @ calls1 @ calls', ex', w3)"
    by (simp add: assms(4))
  from executeWorkflow_runs [OF assms(1) assms(2) assms(3) this assms(9)]
  show "\<exists>res eng'. executeWorkflow rt eng name w = (Inr (Some res), eng', calls @ calls1 @ calls', w3)
                 \<and> res_steps res = rs @ r # rs'"
    by simp
qed

lemma demo_first_step:
  "runSteps demoRuntime demoExecutor [demoStep ''s1'' ''open_app'' None None] 0 =
     ([\<lparr>stepId = ''s1'', sr_action = ''open_app'', sr_status = StepSuccess,
        sr_result = ''done'', duration = 5\<rparr>],
      [stepCommand (demoStep ''s1'' ''open_app'' None None)], LoopEnded, 5)"
  by (simp add: demoStep_def demoRuntime_def demoExecutor_def conditionFails_def
        executeStep_def delayed_def maxAttempts_def stepCommand_def getProp_def orElse_def
        Let_def)

lemma demo_second_step:
  "executeStep demoRuntime demoExecutor (demoStep ''s2'' ''bad_action'' policy (Some 2)) 5 =
     (Inr (False,
      \<lparr>stepId = ''s2'', sr_action = ''bad_action'', sr_status = StepFailed,
       sr_result = ''Unknown action'', duration = 10\<rparr>),
      [stepCommand (demoStep ''s2'' ''bad_action'' policy (Some 2)),
       stepCommand (demoStep ''s2'' ''bad_action'' policy (Some 2))], 15)"
  by (simp add: demoStep_def demoRuntime_def demoExecutor_def
        executeStep_def delayed_def maxAttempts_def stepCommand_def getProp_def orElse_def
        Let_def numeral_2_eq_2)

lemma demo_third_step:
  "runSteps demoRuntime demoExecutor [demoStep ''s3'' ''lock'' None None] 15 =
     ([\<lparr>stepId = ''s3'', sr_action = ''lock'', sr_status = StepSuccess,
        sr_result = ''done'', duration = 5\<rparr>],
      [stepCommand (demoStep ''s3'' ''lock'' None None)], LoopEnded, 20)"
  by (simp add: demoStep_def demoRuntime_def demoExecutor_def conditionFails_def
        executeStep_def delayed_def maxAttempts_def stepCommand_def getProp_def orElse_def
        Let_def)

lemma demo_condition:
  "\<not> conditionFails demoRuntime (demoStep ''s2'' ''bad_action'' policy (Some 2)) 5"
  by (simp add: conditionFails_def demoStep_def)

lemma demo_failed_step_policies:
  "(\<exists>res eng'.
      executeWorkflow demoRuntime (demoEngine abortSteps) ''demo'' 0
        = (Inr (Some res), eng',
           [stepCommand (demoStep ''s1'' ''open_app'' None None),
            stepCommand (demoStep ''s2'' ''bad_action'' (Some Abort) (Some 2)),
            stepCommand (demoStep ''s2'' ''bad_action'' (Some Abort) (Some 2))], 15)
      \<and> map stepId (res_steps res) = [''s1'', ''s2''])
   \<and> (\<exists>res eng'.
      executeWorkflow demoRuntime (demoEngine skipSteps) ''demo'' 0
        = (Inr (Some res), eng',
           [stepCommand (demoStep ''s1'' ''open_app'' None None),
            stepCommand (demoStep ''s2'' ''bad_action'' (Some Skip) (Some 2)),
            stepCommand (demoStep ''s2'' ''bad_action'' (Some Skip) (Some 2)),
            stepCommand (demoStep ''s3'' ''lock'' None None)], 20)
      \<and> map stepId (res_steps res) = [''s1'', ''s2'', ''s3''])"
proof
  have h1: "executor (demoEngine abortSteps) = Some demoExecutor" by (simp add: demoEngine_def)
  have h3: "wf_enabled (demoWorkflow abortSteps)" by (simp add: demoWorkflow_def)
  have h4: "steps (demoWorkflow abortSteps)
      = [demoStep ''s1'' ''open_app'' None None]
        @ demoStep ''s2'' ''bad_action'' (Some Abort) (Some 2) # [demoStep ''s3'' ''lock'' None None]"
    by (simp add: demoWorkflow_def abortSteps_def)
  have p: "onFailure (demoStep ''s2'' ''bad_action'' (Some Abort) (Some 2)) = Some Abort"
    by (simp add: demoStep_def)
  from failed_step_policies
    [OF h1 demo_resolve h3 h4 demo_first_step demo_condition demo_second_step demo_third_step] p
  obtain res eng' where
    "executeWorkflow demoRuntime (demoEngine abortSteps) ''demo'' 0
       = (Inr (Some res), eng',
          [stepCommand (demoStep ''s1'' ''open_app'' None None)]
          @ [stepCommand (demoStep ''s2'' ''bad_action'' (Some Abort) (Some 2)),
             stepCommand (demoStep ''s2'' ''bad_action'' (Some Abort) (Some 2))], 15)"
    "res_steps res
       = [\<lparr>stepId = ''s1'', sr_action = ''open_app'', sr_status = StepSuccess,
            sr_result = ''done'', duration = 5\<rparr>]
         @ [\<lparr>stepId = ''s2'', sr_action = ''bad_action'', sr_status = StepFailed,
              sr_result = ''Unknown action'', duration = 10\<rparr>]"
    by blast
  then show "\<exists>res eng'.
      executeWorkflow demoRuntime (demoEngine abortSteps) ''demo'' 0
        = (Inr (Some res), eng',
           [stepCommand (demoStep ''s1'' ''open_app'' None None),
            stepCommand (demoStep ''s2'' ''bad_action'' (Some Abort) (Some 2)),
            stepCommand (demoStep ''s2'' ''bad_action'' (Some Abort) (Some 2))], 15)
      \<and> map stepId (res_steps res) = [''s1'', ''s2'']"
    by (intro exI [of _ res] exI [of _ eng']) simp
next
  have h1: "executor (demoEngine skipSteps) = Some demoExecutor" by (simp add: demoEngine_def)
  have h3: "wf_enabled (demoWorkflow skipSteps)" by (simp add: demoWorkflow_def)
  have h4: "steps (demoWorkflow skipSteps)
      = [demoStep ''s1'' ''open_app'' None None]
        @ demoStep ''s2'' ''bad_action'' (Some Skip) (Some 2) # [demoStep ''s3'' ''lock'' None None]"
    by (simp add: demoWorkflow_def skipSteps_def)
  have p: "onFailure (demoStep ''s2'' ''bad_action'' (Some Skip) (Some 2)) \<noteq> Some Abort"
    by (simp add: demoStep_def)
  from failed_step_policies
    [OF h1 demo_resolve h3 h4 demo_first_step demo_condition demo_second_step demo_third_step] p
  obtain res eng' where
    "executeWorkflow demoRuntime (demoEngine skipSteps) ''demo'' 0
       = (Inr (Some res), eng',
          [stepCommand (demoStep ''s1'' ''open_app'' None None)]
          @ [stepCommand (demoStep ''s2'' ''bad_action'' (Some Skip) (Some 2)),
             stepCommand (demoStep ''s2'' ''bad_action'' (Some Skip) (Some 2))]
          @ [stepCommand (demoStep ''s3'' ''lock'' None None)], 20)"
    "res_steps res
       = [\<lparr>stepId = ''s1'', sr_action = ''open_app'', sr_status = StepSuccess,
            sr_result = ''done'', duration = 5\<rparr>]
         @ \<lparr>stepId = ''s2'', sr_action = ''bad_action'', sr_status = StepFailed,
              sr_result = ''Unknown action'', duration = 10\<rparr>
         # [\<lparr>stepId = ''s3'', sr_action = ''lock'', sr_status = StepSuccess,
              sr_result = ''done'', duration = 5\<rparr>]"
    by blast
  then show "\<exists>res eng'.
      executeWorkflow demoRuntime (demoEngine skipSteps) ''demo'' 0
        = (Inr (Some res), eng',
           [stepCommand (demoStep ''s1'' ''open_app'' None None),
            stepCommand (demoStep ''s2'' ''bad_action'' (Some Skip) (Some 2)),
            stepCommand (demoStep ''s2'' ''bad_action'' (Some Skip) (Some 2)),
            stepCommand (demoStep ''s3'' ''lock'' None None)], 20)
      \<and> map stepId (res_steps res) = [''s1'', ''s2'', ''s3'']"
    by (intro exI [of _ res] exI [of _ eng']) simp
qed

text \<open>
  Claim C9. The claim does not hold of every failing step. A step with the policy \<^verbatim>\<open>skip\<close>
  whose call the executor rejects with \<^verbatim>\<open>null\<close> or \<^verbatim>\<open>undefined\<close> does not let the run go on:
  reading \<^verbatim>\<open>e.message\<close> in the \<^verbatim>\<open>catch\<close> block raises a TypeError that leaves
  \<^verbatim>\<open>executeWorkflow\<close>. In the workflow below the first step is such a step and the second
  step, \<^verbatim>\<open>lock\<close>, would succeed: the run ends with the exception after the one call of the
  first step, the second step is never handed to the executor, and nothing is recorded.
\<close>

theorem skip_policy_null_rejection_ends_run:
  "executeWorkflow demoRuntime (rejectingEngine skipFirstSteps) ''demo'' 0
     = (Inl (TypeError ''Cannot read properties of undefined''),
        rejectingEngine skipFirstSteps,
        [stepCommand (demoStep ''s1'' ''bad_action'' (Some Skip) None)],
        5)
   \<and> onFailure (hd skipFirstSteps) = Some Skip
   \<and> length skipFirstSteps = 2
   \<and> fst (nullRejectingExecutor (stepCommand (skipFirstSteps ! 1)) 5) = Reply ''success'' ''done''"
  by (simp add: executeWorkflow_def resolveWorkflow_def rejectingEngine_def demoWorkflow_def
        skipFirstSteps_def demoStep_def demoRuntime_def nullRejectingExecutor_def
        conditionFails_def executeStep_def delayed_def maxAttempts_def stepCommand_def
        getProp_def orElse_def Let_def)

text \<open>
  The same workflow with an executor that answers the first call with an error status
  instead: the step is recorded as failed and the second step runs.
\<close>

lemma skip_policy_error_reply_continues:
  "executeWorkflow demoRuntime (demoEngine skipFirstSteps) ''demo'' 0
     = (Inr (Some \<lparr>workflowId = ''demo'', workflowName = ''Demo Mode'', startedAt = 0,
                 completedAt = 10,
                 res_steps =
                   [\<lparr>stepId = ''s1'', sr_action = ''bad_action'', sr_status = StepFailed,
                     sr_result = ''Unknown action'', duration = 5\<rparr>,
                    \<lparr>stepId = ''s2'', sr_action = ''lock'', sr_status = StepSuccess,
                     sr_result = ''done'', duration = 5\<rparr>],
                 res_status = RunPartial\<rparr>),
        \<lparr>workflows = [(''demo'', (demoWorkflow skipFirstSteps)\<lparr>lastRun := Some 10, runCount := 1\<rparr>)],
         executor = Some demoExecutor\<rparr>,
        [stepCommand (demoStep ''s1'' ''bad_action'' (Some Skip) None),
         stepCommand (demoStep ''s2'' ''lock'' None None)],
        10)"
  by (simp add: executeWorkflow_def resolveWorkflow_def demoEngine_def demoWorkflow_def
        skipFirstSteps_def demoStep_def demoRuntime_def demoExecutor_def
        conditionFails_def executeStep_def delayed_def maxAttempts_def stepCommand_def
        getProp_def orElse_def Let_def runStatus_def)

section \<open>Validation and authentication\<close>

lemma lowerOrEmpty_text:
  "textField cmd k \<Longrightarrow> lowerOrEmpty lc (getProp cmd k) = Inr (lc (textOf cmd k))"
  by (cases "getProp cmd k") (simp_all add: textField_def textOf_def lowerOrEmpty_def)

lemma validate_text:
  assumes "textField cmd ''action''" and "textField cmd ''target''" and "textField cmd ''payload''"
  shows "validate lc cmd =
           Inr (validateStrings (lc (textOf cmd ''action'')) (lc (textOf cmd ''target''))
                  (lc (textOf cmd ''payload'')))"
  using assms by (simp add: validate_def lowerOrEmpty_text)

lemma validateStrings_blocked:
  assumes "p \<in> set BLOCKED_PATTERNS" and "includesStr (combinedText a t q) p"
  shows "\<not> valid (validateStrings a t q) \<and> dangerous (validateStrings a t q)"
proof -
  from assms have "find (\<lambda>blocked. includesStr (combinedText a t q) blocked) BLOCKED_PATTERNS \<noteq> None"
    by (auto simp add: find_None_iff)
  then show ?thesis by (auto simp add: validateStrings_def)
qed

lemma validateStrings_empty: "\<not> valid (validateStrings [] t q)"
  by (simp add: validateStrings_def split: option.splits)

lemma validateStrings_dangerous:
  assumes "a \<in> set DANGEROUS_ACTIONS"
  shows "dangerous (validateStrings a t q)"
proof -
  from assms have "a \<noteq> []" by (auto simp add: DANGEROUS_ACTIONS_def)
  with assms show ?thesis
    by (cases "find (\<lambda>blocked. includesStr (combinedText a t q) blocked) BLOCKED_PATTERNS")
      (simp_all add: validateStrings_def)
qed

lemma validateStrings_unblocked:
  assumes "\<forall>p\<in>set BLOCKED_PATTERNS. \<not> includesStr (combinedText a t q) p" and "a \<noteq> []"
  shows "validateStrings a t q = \<lparr>valid = True, message = ''OK'', dangerous = (a \<in> set DANGEROUS_ACTIONS)\<rparr>"
proof -
  from assms(1) have "find (\<lambda>blocked. includesStr (combinedText a t q) blocked) BLOCKED_PATTERNS = None"
    by (simp add: find_None_iff)
  with assms(2) show ?thesis by (simp add: validateStrings_def)
qed

text \<open>
  Commands whose \<^verbatim>\<open>action\<close>, \<^verbatim>\<open>target\<close> and \<^verbatim>\<open>payload\<close> are strings or absent, as the
  \<^verbatim>\<open>BridgeCommand\<close> type declares them, with any \<^verbatim>\<open>toLowerCase\<close>: \<^verbatim>\<open>validate\<close> returns a result; it
  is not valid when the text \<^verbatim>\<open>action target payload\<close> of the lowered fields (joined by single
  spaces, as the code joins them) contains an entry of the deny-list, nor when the lowered
  action is empty; it is flagged dangerous when the lowered action is in the risky set,
  blocked or not, and such a command with no deny-listed text is valid and dangerous.
\<close>

lemma validate_text_fields:
  assumes "textField cmd ''action''" and "textField cmd ''target''" and "textField cmd ''payload''"
  shows "\<exists>v. validate lc cmd = Inr v
           \<and> (\<forall>p\<in>set BLOCKED_PATTERNS.
                 includesStr
                   (combinedText (lc (textOf cmd ''action'')) (lc (textOf cmd ''target''))
                      (lc (textOf cmd ''payload''))) p
                 \<longrightarrow> \<not> valid v)
           \<and> (lc (textOf cmd ''action'') = [] \<longrightarrow> \<not> valid v)
           \<and> (lc (textOf cmd ''action'') \<in> set DANGEROUS_ACTIONS \<longrightarrow> dangerous v)
           \<and> (lc (textOf cmd ''action'') \<in> set DANGEROUS_ACTIONS
               \<and> (\<forall>p\<in>set BLOCKED_PATTERNS.
                     \<not> includesStr
                         (combinedText (lc (textOf cmd ''action'')) (lc (textOf cmd ''target''))
                            (lc (textOf cmd ''payload''))) p)
               \<longrightarrow> valid v \<and> dangerous v)"
proof -
  let ?a = "lc (textOf cmd ''action'')"
  let ?t = "lc (textOf cmd ''target'')"
  let ?q = "lc (textOf cmd ''payload'')"
  let ?v = "validateStrings ?a ?t ?q"
  have v: "validate lc cmd = Inr ?v" by (rule validate_text [OF assms])
  have c1: "\<forall>p\<in>set BLOCKED_PATTERNS. includesStr (combinedText ?a ?t ?q) p \<longrightarrow> \<not> valid ?v"
    using validateStrings_blocked [of _ ?a ?t ?q] by simp
  have c2: "?a = [] \<longrightarrow> \<not> valid ?v"
    using validateStrings_empty [of ?t ?q] by auto
  have c3: "?a \<in> set DANGEROUS_ACTIONS \<longrightarrow> dangerous ?v"
    using validateStrings_dangerous [of ?a ?t ?q] by blast
  have c4: "?a \<in> set DANGEROUS_ACTIONS
               \<and> (\<forall>p\<in>set BLOCKED_PATTERNS. \<not> includesStr (combinedText ?a ?t ?q) p)
               \<longrightarrow> valid ?v \<and> dangerous ?v"
  proof
    assume h: "?a \<in> set DANGEROUS_ACTIONS
               \<and> (\<forall>p\<in>set BLOCKED_PATTERNS. \<not> includesStr (combinedText ?a ?t ?q) p)"
    then have "?a \<noteq> []" by (auto simp add: DANGEROUS_ACTIONS_def)
    with h show "valid ?v \<and> dangerous ?v"
      using validateStrings_unblocked [of ?a ?t ?q] by simp
  qed
  from v c1 c2 c3 c4 show ?thesis by blast
qed

text \<open>Two commands in ASCII, for any \<^verbatim>\<open>toLowerCase\<close> that lowers ASCII text as JavaScript does.\<close>

lemma formatCommand_validate:
  assumes "lowersAscii lc"
  shows "validate lc formatCommand =
     Inr \<lparr>valid = False,
          message = ''BLOCKED: '' @ [CHR 0x27] @ ''format c:'' @ [CHR 0x27] @ '' is a prohibited operation.'',
          dangerous = True\<rparr>"
proof -
  from assms have "lc ''Shell_Execute'' = asciiLowerCase ''Shell_Execute''"
    and "lc [] = asciiLowerCase []"
    and "lc ''FORMAT C: /q'' = asciiLowerCase ''FORMAT C: /q''"
    by (simp_all add: lowersAscii_def isAscii_def)
  then show ?thesis
    by (simp add: validate_def formatCommand_def getProp_def lowerOrEmpty_def asciiLowerCase_def
        asciiLowerChar_def validateStrings_def combinedText_def BLOCKED_PATTERNS_def)
qed

lemma shutdownCommand_validate:
  assumes "lowersAscii lc"
  shows "validate lc shutdownCommand = Inr \<lparr>valid = True, message = ''OK'', dangerous = True\<rparr>"
proof -
  from assms have "lc ''shutdown'' = asciiLowerCase ''shutdown''"
    and "lc [] = asciiLowerCase []"
    and "lc ''now'' = asciiLowerCase ''now''"
    by (simp_all add: lowersAscii_def isAscii_def)
  then show ?thesis
    by (simp add: validate_def shutdownCommand_def getProp_def lowerOrEmpty_def asciiLowerCase_def
        asciiLowerChar_def validateStrings_def combinedText_def BLOCKED_PATTERNS_def
        DANGEROUS_ACTIONS_def)
qed

lemma asciiLowerCase_lowersAscii: "lowersAscii asciiLowerCase"
  by (simp add: lowersAscii_def)

text \<open>
  Claim C7. The claim does not hold of every command. \<^verbatim>\<open>validate\<close> takes a
  \<^verbatim>\<open>Record<string, any>\<close> and calls \<^verbatim>\<open>toLowerCase\<close> on each of \<^verbatim>\<open>command.action || ''\<close>,
  \<^verbatim>\<open>command.target || ''\<close> and \<^verbatim>\<open>command.payload || ''\<close>; a truthy value that is not a string
  has no such method. For the command \<^verbatim>\<open>{ action: 'shutdown', target: 50 }\<close>, whose action is
  in the risky set, the call raises a TypeError whatever \<^verbatim>\<open>toLowerCase\<close> does on strings: no
  result is returned, so the command is not flagged dangerous.
\<close>

theorem validate_non_string_field_throws:
  "validate lc numberTargetCommand = Inl (TypeError ''toLowerCase is not a function'')
   \<and> getProp numberTargetCommand ''action'' = JStr ''shutdown''
   \<and> getProp numberTargetCommand ''target'' = JNum 50
   \<and> ''shutdown'' \<in> set DANGEROUS_ACTIONS"
  by (simp add: validate_def numberTargetCommand_def getProp_def lowerOrEmpty_def
        DANGEROUS_ACTIONS_def)

lemma startsWith_iff: "startsWith s p \<longleftrightarrow> (\<exists>b. s = p @ b)"
  by (induction s p rule: startsWith.induct) auto

lemma includesStr_iff: "includesStr s p \<longleftrightarrow> (\<exists>a b. s = a @ p @ b)"
proof (induction s)
  case Nil
  show ?case by auto
next
  case (Cons c cs)
  show ?case
  proof
    assume "includesStr (c # cs) p"
    then have "startsWith (c # cs) p \<or> includesStr cs p" by simp
    then show "\<exists>a b. c # cs = a @ p @ b"
    proof
      assume "startsWith (c # cs) p"
      then obtain b where "c # cs = p @ b" by (auto simp add: startsWith_iff)
      then have "c # cs = [] @ p @ b" by simp
      then show ?thesis by blast
    next
      assume "includesStr cs p"
      with Cons.IH obtain a b where "cs = a @ p @ b" by blast
      then have "c # cs = (c # a) @ p @ b" by simp
      then show ?thesis by blast
    qed
  next
    assume "\<exists>a b. c # cs = a @ p @ b"
    then obtain a b where ab: "c # cs = a @ p @ b" by blast
    show "includesStr (c # cs) p"
    proof (cases a)
      case Nil
      with ab have "startsWith (c # cs) p" by (auto simp add: startsWith_iff)
      then show ?thesis by simp
    next
      case (Cons x xs)
      with ab have "cs = xs @ p @ b" by simp
      with Cons.IH have "includesStr cs p" by blast
      then show ?thesis by simp
    qed
  qed
qed

lemma map_of_setProp:
  "map_of (setProp k v ob) k' = (if k' = k then Some v else map_of ob k')"
  by (induction ob) auto

lemma getProp_setProp:
  "getProp (setProp k v ob) k' = (if k' = k then v else getProp ob k')"
  by (simp add: getProp_def map_of_setProp)

lemma keys_setProp: "fst ` set (setProp k v ob) = insert k (fst ` set ob)"
proof (induction ob)
  case Nil
  show ?case by simp
next
  case (Cons p ob)
  obtain k' v' where p: "p = (k', v')" by (cases p)
  show ?case
  proof (cases "k' = k")
    case True
    then show ?thesis by (simp add: p)
  next
    case False
    then show ?thesis by (simp add: p Cons.IH insert_commute)
  qed
qed

lemma setProp_new: "k \<notin> fst ` set ob \<Longrightarrow> setProp k v ob = ob @ [(k, v)]"
  by (induction ob) auto

lemma hexDigit_inj: "a < 16 \<Longrightarrow> b < 16 \<Longrightarrow> hexDigit a = hexDigit b \<Longrightarrow> a = b"
proof -
  assume a: "a < 16" and b: "b < 16" and e: "hexDigit a = hexDigit b"
  have d: "distinct ''0123456789abcdef''" by simp
  have l: "length ''0123456789abcdef'' = 16" by simp
  from e have "''0123456789abcdef'' ! a = ''0123456789abcdef'' ! b" by (simp add: hexDigit_def)
  with d a b l show "a = b" by (simp add: nth_eq_iff_index_eq)
qed

lemma hexByte_inj: "hexByte a = hexByte b \<longleftrightarrow> a = b"
proof
  assume "hexByte a = hexByte b"
  then have h: "hexDigit (unat a div 16) = hexDigit (unat b div 16)"
    and l: "hexDigit (unat a mod 16) = hexDigit (unat b mod 16)"
    by (simp_all add: hexByte_def)
  have ua: "unat a < 256" and ub: "unat b < 256"
    using unsigned_less [of a] unsigned_less [of b] by simp_all
  then have "unat a div 16 < 16" "unat b div 16 < 16" by simp_all
  with h have d: "unat a div 16 = unat b div 16" by (rule hexDigit_inj [rotated 2])
  have "unat a mod 16 < 16" "unat b mod 16 < 16" by simp_all
  with l have m: "unat a mod 16 = unat b mod 16" by (rule hexDigit_inj [rotated 2])
  have "unat a = 16 * (unat a div 16) + unat a mod 16" by simp
  also have "\<dots> = 16 * (unat b div 16) + unat b mod 16" by (simp only: d m)
  also have "\<dots> = unat b" by simp
  finally show "a = b" by (simp add: word_unat_eq_iff)
next
  assume "a = b"
  then show "hexByte a = hexByte b" by simp
qed

lemma length_hexByte: "length (hexByte b) = 2"
  by (simp add: hexByte_def)

lemma concat_hex_length: "length (concat (map (\<lambda>i. hexByte (f i)) xs)) = 2 * length xs"
  by (induction xs) (simp_all add: length_hexByte)

lemma concat_hex_inj:
  "concat (map (\<lambda>i. hexByte (f i)) xs) = concat (map (\<lambda>i. hexByte (g i)) xs)
    \<longleftrightarrow> (\<forall>i\<in>set xs. f i = g i)"
  by (induction xs) (auto simp add: length_hexByte hexByte_inj)

lemma generateNonce_length: "length (generateNonce rng) = 32"
  by (simp add: generateNonce_def concat_hex_length)

lemma generateNonce_inj:
  "generateNonce rng = generateNonce rng' \<longleftrightarrow> (\<forall>i<16. rng i = rng' i)"
  by (auto simp add: generateNonce_def concat_hex_inj)

lemma constructed_token:
  "newBridgeAuthenticator tok envToken = Inr auth \<Longrightarrow> token auth \<noteq> []"
  by (cases tok; cases envToken)
    (auto simp add: newBridgeAuthenticator_def truthyStr_def split: if_splits)

text \<open>
  Claim C6, as the code has it. \<^verbatim>\<open>wrapCommand\<close> returns a new object that keeps every
  property of the command other than \<^verbatim>\<open>auth_token\<close>, \<^verbatim>\<open>timestamp\<close> and \<^verbatim>\<open>nonce\<close>, whose
  properties are those of the command plus these three, and in which \<^verbatim>\<open>auth_token\<close> is the
  non-empty session token, \<^verbatim>\<open>timestamp\<close> the clock reading and \<^verbatim>\<open>nonce\<close> the 32 hexadecimal
  digits of the 16 random bytes. A command that has none of the three properties gets
  exactly the three appended. The nonces of two calls are equal exactly when the random
  bytes drawn are.
\<close>

theorem wrapCommand_adds_auth_fields:
  assumes "newBridgeAuthenticator tok envToken = Inr auth"
  shows "(\<forall>k. k \<notin> set authFields \<longrightarrow> getProp (wrapCommand auth now rng cmd) k = getProp cmd k)
         \<and> fst ` set (wrapCommand auth now rng cmd) = fst ` set cmd \<union> set authFields
         \<and> getProp (wrapCommand auth now rng cmd) ''auth_token'' = JStr (token auth)
         \<and> token auth \<noteq> []
         \<and> getProp (wrapCommand auth now rng cmd) ''timestamp'' = JNum now
         \<and> getProp (wrapCommand auth now rng cmd) ''nonce'' = JStr (generateNonce rng)
         \<and> length (generateNonce rng) = 32
         \<and> (fst ` set cmd \<inter> set authFields = {} \<longrightarrow>
              wrapCommand auth now rng cmd
                = cmd @ [(''auth_token'', JStr (token auth)), (''timestamp'', JNum now),
                         (''nonce'', JStr (generateNonce rng))])
         \<and> (generateNonce rng = generateNonce rng' \<longleftrightarrow> (\<forall>i<16. rng i = rng' i))"
proof (intro conjI allI impI)
  fix k assume "k \<notin> set authFields"
  then show "getProp (wrapCommand auth now rng cmd) k = getProp cmd k"
    by (simp add: wrapCommand_def getProp_setProp authFields_def)
next
  show "fst ` set (wrapCommand auth now rng cmd) = fst ` set cmd \<union> set authFields"
    by (auto simp add: wrapCommand_def keys_setProp authFields_def)
next
  show "getProp (wrapCommand auth now rng cmd) ''auth_token'' = JStr (token auth)"
    by (simp add: wrapCommand_def getProp_setProp)
next
  show "token auth \<noteq> []" by (rule constructed_token [OF assms])
next
  show "getProp (wrapCommand auth now rng cmd) ''timestamp'' = JNum now"
    by (simp add: wrapCommand_def getProp_setProp)
next
  show "getProp (wrapCommand auth now rng cmd) ''nonce'' = JStr (generateNonce rng)"
    by (simp add: wrapCommand_def getProp_setProp)
next
  show "length (generateNonce rng) = 32" by (rule generateNonce_length)
next
  assume d: "fst ` set cmd \<inter> set authFields = {}"
  then have a: "''auth_token'' \<notin> fst ` set cmd"
    and t: "''timestamp'' \<notin> fst ` set cmd" and n: "''nonce'' \<notin> fst ` set cmd"
    by (auto simp add: authFields_def)
  have s1: "setProp ''auth_token'' (JStr (token auth)) cmd = cmd @ [(''auth_token'', JStr (token auth))]"
    by (rule setProp_new [OF a])
  have t': "''timestamp'' \<notin> fst ` set (cmd @ [(''auth_token'', JStr (token auth))])"
    using t by simp
  have s2: "setProp ''timestamp'' (JNum now) (cmd @ [(''auth_token'', JStr (token auth))])
      = (cmd @ [(''auth_token'', JStr (token auth))]) @ [(''timestamp'', JNum now)]"
    by (rule setProp_new [OF t'])
  have n': "''nonce'' \<notin> fst ` set ((cmd @ [(''auth_token'', JStr (token auth))]) @ [(''timestamp'', JNum now)])"
    using n by simp
  have s3: "setProp ''nonce'' (JStr (generateNonce rng))
        ((cmd @ [(''auth_token'', JStr (token auth))]) @ [(''timestamp'', JNum now)])
      = ((cmd @ [(''auth_token'', JStr (token auth))]) @ [(''timestamp'', JNum now)])
        @ [(''nonce'', JStr (generateNonce rng))]"
    by (rule setProp_new [OF n'])
  show "wrapCommand auth now rng cmd
                = cmd @ [(''auth_token'', JStr (token auth)), (''timestamp'', JNum now),
                         (''nonce'', JStr (generateNonce rng))]"
    unfolding wrapCommand_def s1 s2 s3 by simp
next
  show "generateNonce rng = generateNonce rng' \<longleftrightarrow> (\<forall>i<16. rng i = rng' i)"
    by (rule generateNonce_inj)
qed

lemma countingBytes_nonce: "generateNonce countingBytes = ''00112233445566778899aabbccddeeff''"
  by (simp add: generateNonce_def countingBytes_def hexByte_def hexDigit_def upt_rec unat_of_nat)

lemma zeroBytes_nonce: "generateNonce zeroBytes = ''00000000000000000000000000000000''"
  by (simp add: generateNonce_def zeroBytes_def hexByte_def hexDigit_def upt_rec)

theorem wrapCommand_adds_auth_fields_witness:
  "wrapCommand demoAuth 1700000000000 countingBytes shutdownCommand
     = [(''action'', JStr ''shutdown''), (''target'', JStr ''now''),
        (''auth_token'', JStr ''jerry-bridge-token''), (''timestamp'', JNum 1700000000000),
        (''nonce'', JStr ''00112233445566778899aabbccddeeff'')]"
proof -
  have h: "newBridgeAuthenticator (Some ''jerry-bridge-token'') None = Inr demoAuth"
    by (simp add: newBridgeAuthenticator_def truthyStr_def demoAuth_def)
  have d: "fst ` set shutdownCommand \<inter> set authFields = {}"
    by (simp add: shutdownCommand_def authFields_def)
  from wrapCommand_adds_auth_fields [OF h, of 1700000000000 countingBytes shutdownCommand] d
  have "wrapCommand demoAuth 1700000000000 countingBytes shutdownCommand
      = shutdownCommand @ [(''auth_token'', JStr (token demoAuth)), (''timestamp'', JNum 1700000000000),
                         (''nonce'', JStr (generateNonce countingBytes))]"
    by blast
  then show ?thesis by (simp add: shutdownCommand_def demoAuth_def countingBytes_nonce)
qed

text \<open>
  The claim as written fails twice: a property called \<^verbatim>\<open>nonce\<close> that the command already has
  is overwritten, so that only two properties are added, and two calls at different times
  whose random bytes coincide carry the same nonce.
\<close>

theorem wrapCommand_preserves_all_counterexample:
  "getProp nonceCommand ''nonce'' = JStr ''caller-value''
   \<and> getProp (wrapCommand demoAuth 1700000000000 zeroBytes nonceCommand) ''nonce''
       = JStr ''00000000000000000000000000000000''
   \<and> length (wrapCommand demoAuth 1700000000000 zeroBytes nonceCommand) = length nonceCommand + 2
   \<and> getProp (wrapCommand demoAuth 1700000000000 zeroBytes shutdownCommand) ''nonce''
       = getProp (wrapCommand demoAuth 1700000000001 zeroBytes shutdownCommand) ''nonce''"
  by (simp add: wrapCommand_def nonceCommand_def shutdownCommand_def getProp_def zeroBytes_nonce)

end
